theory Spec2Isabelle
  imports Complex_Main "HOL-Library.Log_Nat" "HOL-Library.Word"
begin

section \<open>JavaScript numbers and 8-bit channels\<close>

text \<open>
  A channel of a \<^verbatim>\<open>Uint8ClampedArray\<close> is an 8-bit word. A JavaScript number is an IEEE
  binary64 value: here a finite value is the real number it denotes, next to NaN and the two
  infinities. Every arithmetic operation on finite values rounds its exact result to the
  nearest binary64 value, ties to even (\<open>fl\<close>). The pipeline never leaves the range of normal
  binary64 values (channels are at most 255, kernel weights lie between \<open>exp (-3)\<close> and 1),
  so \<open>fl\<close> carries no overflow and no subnormal case, and the sign of zero, which only a
  division by a computed zero could observe, is not represented.
\<close>

type_synonym byte = "8 word"

datatype number = NaN | PInf | NInf | Fin real

definition roundHalfEven :: "real \<Rightarrow> int" where
  "roundHalfEven y =
     (let n = \<lfloor>y\<rfloor>; f = y - of_int n in
      if f < 1 / 2 then n else if 1 / 2 < f then n + 1 else if even n then n else n + 1)"

definition pow2 :: "int \<Rightarrow> real" where
  "pow2 e = (if 0 \<le> e then 2 ^ nat e else 1 / 2 ^ nat (- e))"

text \<open>The binary exponent of a positive real: \<open>pow2 (expo x) \<le> x < pow2 (expo x + 1)\<close>.\<close>

definition expo :: "real \<Rightarrow> int" where
  "expo x =
     (if 1 \<le> x then bitlen \<lfloor>x\<rfloor> - 1
      else (let k = bitlen \<lfloor>1 / x\<rfloor> - 1 in if x * 2 ^ nat k = 1 then - k else - (k + 1)))"

text \<open>Rounding to 53 significant bits, ties to even.\<close>

definition fl :: "real \<Rightarrow> real" where
  "fl x =
     (if x = 0 then 0
      else (let e = expo \<bar>x\<bar> - 52 in of_int (roundHalfEven (x / pow2 e)) * pow2 e))"

definition inf_of :: "bool \<Rightarrow> number" where
  "inf_of positive = (if positive then PInf else NInf)"

fun jadd :: "number \<Rightarrow> number \<Rightarrow> number" where
  "jadd (Fin a) (Fin b) = Fin (fl (a + b))"
| "jadd NaN _ = NaN"
| "jadd _ NaN = NaN"
| "jadd PInf NInf = NaN"
| "jadd NInf PInf = NaN"
| "jadd PInf _ = PInf"
| "jadd _ PInf = PInf"
| "jadd NInf _ = NInf"
| "jadd _ NInf = NInf"

fun jmul :: "number \<Rightarrow> number \<Rightarrow> number" where
  "jmul (Fin a) (Fin b) = Fin (fl (a * b))"
| "jmul NaN _ = NaN"
| "jmul _ NaN = NaN"
| "jmul PInf PInf = PInf"
| "jmul PInf NInf = NInf"
| "jmul NInf PInf = NInf"
| "jmul NInf NInf = PInf"
| "jmul PInf (Fin b) = (if b = 0 then NaN else inf_of (0 < b))"
| "jmul NInf (Fin b) = (if b = 0 then NaN else inf_of (b < 0))"
| "jmul (Fin a) PInf = (if a = 0 then NaN else inf_of (0 < a))"
| "jmul (Fin a) NInf = (if a = 0 then NaN else inf_of (a < 0))"

fun jdiv :: "number \<Rightarrow> number \<Rightarrow> number" where
  "jdiv (Fin a) (Fin b) =
     (if b = 0 then (if a = 0 then NaN else inf_of (0 < a)) else Fin (fl (a / b)))"
| "jdiv NaN _ = NaN"
| "jdiv _ NaN = NaN"
| "jdiv (Fin a) _ = Fin 0"
| "jdiv PInf (Fin b) = inf_of (0 \<le> b)"
| "jdiv NInf (Fin b) = inf_of (b < 0)"
| "jdiv _ _ = NaN"

fun Math_sqrt :: "number \<Rightarrow> number" where
  "Math_sqrt (Fin a) = (if a < 0 then NaN else Fin (fl (sqrt a)))"
| "Math_sqrt PInf = PInf"
| "Math_sqrt _ = NaN"

text \<open>
  \<^verbatim>\<open>Math.exp\<close> is taken as correctly rounded. The language leaves it to the implementation
  (only the values at 0, NaN and the infinities are fixed), and an engine may return a
  neighbouring double; what is proved about the Gaussian weights below uses them as they
  come, or through bounds that hold for the neighbouring doubles too, and never through
  their last bits.
\<close>

fun Math_exp :: "number \<Rightarrow> number" where
  "Math_exp (Fin a) = Fin (fl (exp a))"
| "Math_exp PInf = PInf"
| "Math_exp NInf = Fin 0"
| "Math_exp NaN = NaN"

text \<open>The comparison \<^verbatim>\<open>a > b\<close>: false as soon as one side is NaN.\<close>

fun jgt :: "number \<Rightarrow> number \<Rightarrow> bool" where
  "jgt (Fin a) (Fin b) = (b < a)"
| "jgt NaN _ = False"
| "jgt _ NaN = False"
| "jgt PInf b = (b \<noteq> PInf)"
| "jgt _ PInf = False"
| "jgt NInf _ = False"
| "jgt _ NInf = True"

text \<open>
  A store into a \<^verbatim>\<open>Uint8ClampedArray\<close>: NaN becomes 0, the value is clamped to 0..255 and
  rounded to the nearest integer, ties to even.
\<close>

fun ToUint8Clamp :: "number \<Rightarrow> byte" where
  "ToUint8Clamp NaN = 0"
| "ToUint8Clamp PInf = 255"
| "ToUint8Clamp NInf = 0"
| "ToUint8Clamp (Fin x) =
     (if x \<le> 0 then 0 else if 255 \<le> x then 255 else word_of_int (roundHalfEven x))"

definition num_of_byte :: "byte \<Rightarrow> number" where
  "num_of_byte v = Fin (real (unat v))"

section \<open>Gradient and classification (Sobel with a double threshold)\<close>

text \<open>
  Both \<^verbatim>\<open>ImageProcessor.applySobelEdgeDetection\<close> (imageProcessor.ts) and
  \<^verbatim>\<open>FrameViewer.applySobel\<close> run the same convolution over the red channel of the
  interior pixels. The sums \<open>gx\<close>, \<open>gy\<close> and \<open>gx * gx + gy * gy\<close> are integers far below
  \<open>2 ^ 53\<close>, where binary64 arithmetic is exact, so they are integers here. The pixel
  array of an \<^verbatim>\<open>ImageData\<close> always holds \<open>4 * width * height\<close> channels, so every read
  below is in range.
\<close>

definition sobelX :: "int list" where
  "sobelX = [-1, 0, 1, -2, 0, 2, -1, 0, 1]"

definition sobelY :: "int list" where
  "sobelY = [-1, -2, -1, 0, 0, 0, 1, 2, 1]"

definition conv_step :: "byte list \<Rightarrow> nat \<Rightarrow> nat \<Rightarrow> nat \<Rightarrow> int \<Rightarrow> int \<Rightarrow> int \<times> int \<Rightarrow> int \<times> int" where
  "conv_step d w x y ky kx = (\<lambda>(gx, gy).
     (let idx = nat ((int y + ky) * int w + (int x + kx)) * 4;
          kernelIdx = nat ((ky + 1) * 3 + (kx + 1))
      in (gx + int (unat (d ! idx)) * sobelX ! kernelIdx,
          gy + int (unat (d ! idx)) * sobelY ! kernelIdx)))"

definition convolve :: "byte list \<Rightarrow> nat \<Rightarrow> nat \<Rightarrow> nat \<Rightarrow> int \<times> int" where
  "convolve d w x y = fold (\<lambda>ky. fold (\<lambda>kx. conv_step d w x y ky kx) [-1..1]) [-1..1] (0, 0)"

definition magnitude :: "int \<times> int \<Rightarrow> number" where
  "magnitude g = (case g of (gx, gy) \<Rightarrow> Math_sqrt (Fin (of_int (gx * gx + gy * gy))))"

text \<open>The double threshold: the test against \<open>highThreshold\<close> comes first.\<close>

definition doubleThreshold :: "number \<Rightarrow> number \<Rightarrow> number \<Rightarrow> byte" where
  "doubleThreshold m lowThreshold highThreshold =
     (if jgt m highThreshold then 255 else if jgt m lowThreshold then 128 else 0)"

definition edge_level :: "byte list \<Rightarrow> nat \<Rightarrow> number \<Rightarrow> number \<Rightarrow> nat \<Rightarrow> nat \<Rightarrow> byte" where
  "edge_level d w lowThreshold highThreshold x y =
     doubleThreshold (magnitude (convolve d w x y)) lowThreshold highThreshold"

text \<open>
  \<^verbatim>\<open>FrameViewer.applySobel\<close>: one level per pixel, in a fresh zero-filled array of
  \<open>width * height\<close> bytes.
\<close>

definition FV_applySobel :: "byte list \<Rightarrow> nat \<Rightarrow> nat \<Rightarrow> number \<Rightarrow> number \<Rightarrow> byte list" where
  "FV_applySobel d w h lowThreshold highThreshold =
     fold (\<lambda>y. fold (\<lambda>x output.
             output[y * w + x := edge_level d w lowThreshold highThreshold x y])
           [1..<w - 1])
       [1..<h - 1] (replicate (w * h) 0)"

text \<open>
  \<^verbatim>\<open>ImageProcessor.applySobelEdgeDetection\<close> (its loops, \<open>IP_sobel_pixels\<close>): the level goes into the three colour
  channels of a fresh zero-filled \<^verbatim>\<open>ImageData\<close>, and alpha is set to 255, for the pixels
  the loop visits.
\<close>

definition IP_sobel_write :: "byte list \<Rightarrow> nat \<Rightarrow> number \<Rightarrow> number \<Rightarrow> nat \<Rightarrow> nat \<Rightarrow> byte list \<Rightarrow> byte list" where
  "IP_sobel_write d w lowThreshold highThreshold y x output =
     (let outIdx = (y * w + x) * 4;
          v = edge_level d w lowThreshold highThreshold x y
      in output[outIdx + 2 := v, outIdx + 1 := v, outIdx := v, outIdx + 3 := 255])"

definition IP_sobel_pixels :: "byte list \<Rightarrow> nat \<Rightarrow> nat \<Rightarrow> number \<Rightarrow> number \<Rightarrow> byte list" where
  "IP_sobel_pixels d w h lowThreshold highThreshold =
     fold (\<lambda>y. fold (\<lambda>x. IP_sobel_write d w lowThreshold highThreshold y x) [1..<w - 1])
       [1..<h - 1] (replicate (4 * w * h) 0)"

text \<open>
  The gradient in the words of the specification: the two 3x3 Sobel sums over the red
  channel around \<open>(x, y)\<close>, evaluated at interior pixels only, with magnitude 0 on the
  one-pixel border.
\<close>

definition red_at :: "byte list \<Rightarrow> nat \<Rightarrow> nat \<Rightarrow> nat \<Rightarrow> int" where
  "red_at d w x y = int (unat (d ! ((y * w + x) * 4)))"

definition Gx :: "byte list \<Rightarrow> nat \<Rightarrow> nat \<Rightarrow> nat \<Rightarrow> int" where
  "Gx d w x y =
     (red_at d w (x + 1) (y - 1) + 2 * red_at d w (x + 1) y + red_at d w (x + 1) (y + 1))
     - (red_at d w (x - 1) (y - 1) + 2 * red_at d w (x - 1) y + red_at d w (x - 1) (y + 1))"

definition Gy :: "byte list \<Rightarrow> nat \<Rightarrow> nat \<Rightarrow> nat \<Rightarrow> int" where
  "Gy d w x y =
     (red_at d w (x - 1) (y + 1) + 2 * red_at d w x (y + 1) + red_at d w (x + 1) (y + 1))
     - (red_at d w (x - 1) (y - 1) + 2 * red_at d w x (y - 1) + red_at d w (x + 1) (y - 1))"

definition interior :: "nat \<Rightarrow> nat \<Rightarrow> nat \<Rightarrow> nat \<Rightarrow> bool" where
  "interior w h x y = (1 \<le> x \<and> x < w - 1 \<and> 1 \<le> y \<and> y < h - 1)"

definition gradient_magnitude :: "byte list \<Rightarrow> nat \<Rightarrow> nat \<Rightarrow> nat \<Rightarrow> nat \<Rightarrow> number" where
  "gradient_magnitude d w h x y =
     (if interior w h x y
      then Math_sqrt (Fin (of_int (Gx d w x y * Gx d w x y + Gy d w x y * Gy d w x y)))
      else Fin 0)"

text \<open>
  The 3x3 intensity step of the specification's scenario: in each of the three rows the
  left pixel is black and the two pixels right of it are white (opaque, grey levels).
\<close>

definition step3 :: "byte list" where
  "step3 =
     [0, 0, 0, 255,  255, 255, 255, 255,  255, 255, 255, 255,
      0, 0, 0, 255,  255, 255, 255, 255,  255, 255, 255, 255,
      0, 0, 0, 255,  255, 255, 255, 255,  255, 255, 255, 255]"

section \<open>Grayscale\<close>

text \<open>
  \<^verbatim>\<open>ImageProcessor.convertToGrayscale\<close> and the first loop of
  \<^verbatim>\<open>FrameViewer.processImage\<close> are the same loop: it steps through the array four
  channels at a time and overwrites red, green and blue, in place, with
  \<^verbatim>\<open>data[i] * 0.299 + data[i + 1] * 0.587 + data[i + 2] * 0.114\<close>. The three literals
  denote the binary64 values nearest to them.
\<close>

definition luminance :: "byte \<Rightarrow> byte \<Rightarrow> byte \<Rightarrow> number" where
  "luminance r g b =
     jadd (jadd (jmul (num_of_byte r) (Fin (fl (299 / 1000))))
                (jmul (num_of_byte g) (Fin (fl (587 / 1000)))))
          (jmul (num_of_byte b) (Fin (fl (114 / 1000))))"

function gray_loop :: "nat \<Rightarrow> byte list \<Rightarrow> byte list" where
  "gray_loop i d =
     (if i < length d
      then (let gray = ToUint8Clamp (luminance (d ! i) (d ! (i + 1)) (d ! (i + 2)))
            in gray_loop (i + 4) (d[i := gray, i + 1 := gray, i + 2 := gray]))
      else d)"
  by pat_completeness auto
termination
  by (relation "measure (\<lambda>(i, d). length d - i)") auto

declare gray_loop.simps [simp del]

section \<open>Smoothing\<close>

text \<open>
  \<^verbatim>\<open>FrameViewer.applyGaussianBlur\<close> is a box blur: for every pixel it adds up the
  channels of the pixels of the square of offsets \<open>-size..size\<close> that lie inside the image,
  counts them, and stores sum / count. It reads from the copy \<open>temp\<close> and writes in place;
  alpha is not touched. The sums and the count are integers below \<open>2 ^ 53\<close>.
\<close>

definition box_step :: "byte list \<Rightarrow> nat \<Rightarrow> nat \<Rightarrow> nat \<Rightarrow> nat \<Rightarrow> int \<Rightarrow> int
    \<Rightarrow> nat \<times> nat \<times> nat \<times> nat \<Rightarrow> nat \<times> nat \<times> nat \<times> nat" where
  "box_step temp w h x y dy dx = (\<lambda>(r, g, b, count).
     (let nx = int x + dx; ny = int y + dy
      in if 0 \<le> nx \<and> nx < int w \<and> 0 \<le> ny \<and> ny < int h
         then (let i = (nat ny * w + nat nx) * 4
               in (r + unat (temp ! i), g + unat (temp ! (i + 1)), b + unat (temp ! (i + 2)),
                   count + 1))
         else (r, g, b, count)))"

definition box_sums :: "byte list \<Rightarrow> nat \<Rightarrow> nat \<Rightarrow> int \<Rightarrow> nat \<Rightarrow> nat \<Rightarrow> nat \<times> nat \<times> nat \<times> nat" where
  "box_sums temp w h sz x y =
     fold (\<lambda>dy. fold (\<lambda>dx. box_step temp w h x y dy dx) [- sz..sz]) [- sz..sz]
       (0, 0, 0, 0)"

definition box_average :: "nat \<Rightarrow> nat \<Rightarrow> byte" where
  "box_average s count = ToUint8Clamp (jdiv (Fin (real s)) (Fin (real count)))"

definition FV_blur_write :: "byte list \<Rightarrow> nat \<Rightarrow> nat \<Rightarrow> int \<Rightarrow> nat \<Rightarrow> nat \<Rightarrow> byte list \<Rightarrow> byte list" where
  "FV_blur_write temp w h sz y x d =
     (case box_sums temp w h sz x y of (r, g, b, count) \<Rightarrow>
        (let i = (y * w + x) * 4
         in d[i := box_average r count, i + 1 := box_average g count,
              i + 2 := box_average b count]))"

definition FV_applyGaussianBlur :: "byte list \<Rightarrow> nat \<Rightarrow> nat \<Rightarrow> int \<Rightarrow> byte list" where
  "FV_applyGaussianBlur d w h sz =
     (let temp = d
      in fold (\<lambda>y. fold (\<lambda>x. FV_blur_write temp w h sz y x) [0..<w]) [0..<h] d)"

text \<open>
  The smoothing stage in the words of the specification: the samples of the square of side
  \<open>2 r + 1\<close> around \<open>(x, y)\<close> that fall inside the buffer, their sum in one channel, and the
  average over their count, stored into an 8-bit channel.
\<close>

definition window :: "nat \<Rightarrow> nat \<Rightarrow> int \<Rightarrow> nat \<Rightarrow> nat \<Rightarrow> (nat \<times> nat) set" where
  "window w h r x y =
     Set.filter (\<lambda>nx. \<bar>int nx - int x\<bar> \<le> r) {..<w} \<times> Set.filter (\<lambda>ny. \<bar>int ny - int y\<bar> \<le> r) {..<h}"

definition inside :: "nat \<Rightarrow> nat \<Rightarrow> int \<Rightarrow> int \<Rightarrow> bool" where
  "inside w h nx ny = (0 \<le> nx \<and> nx < int w \<and> 0 \<le> ny \<and> ny < int h)"

definition window_sum :: "byte list \<Rightarrow> nat \<Rightarrow> nat \<Rightarrow> int \<Rightarrow> nat \<Rightarrow> nat \<Rightarrow> nat \<Rightarrow> nat" where
  "window_sum d w h r x y c =
     (\<Sum>p \<in> window w h r x y. unat (d ! ((snd p * w + fst p) * 4 + c)))"

definition excluding_average :: "byte list \<Rightarrow> nat \<Rightarrow> nat \<Rightarrow> int \<Rightarrow> nat \<Rightarrow> nat \<Rightarrow> nat \<Rightarrow> byte" where
  "excluding_average d w h r x y c =
     ToUint8Clamp (jdiv (Fin (real (window_sum d w h r x y c)))
                        (Fin (real (card (window w h r x y)))))"

text \<open>
  \<^verbatim>\<open>ImageProcessor.applyGaussianBlur\<close> weighs with a Gaussian kernel of \<open>kernelSize\<close> rows
  and columns, over the offsets \<open>-radius..radius\<close> with \<open>radius = floor (kernelSize / 2)\<close>;
  a coordinate outside the image is clamped to the nearest border pixel, and the divisor is
  the sum of all weights. Reading a row the kernel does not have gives \<^verbatim>\<open>undefined\<close>, and
  indexing that throws a \<^verbatim>\<open>TypeError\<close>; a missing column of an existing row gives
  \<^verbatim>\<open>undefined\<close>, which is NaN in arithmetic.
\<close>

datatype error = TypeError | IndexSizeError

fun for_each :: "'i list \<Rightarrow> ('i \<Rightarrow> 's \<Rightarrow> error + 's) \<Rightarrow> 's \<Rightarrow> error + 's" where
  "for_each [] body s = Inr s"
| "for_each (i # is) body s =
     (case body i s of Inl e \<Rightarrow> Inl e | Inr s' \<Rightarrow> for_each is body s')"

definition createGaussianKernel :: "int \<Rightarrow> number \<Rightarrow> number list list" where
  "createGaussianKernel sz sigma =
     (let center = sz div 2
      in map (\<lambda>y. map (\<lambda>x.
                (let dx = int x - center; dy = int y - center
                 in Math_exp (jdiv (Fin (of_int (- (dx * dx + dy * dy))))
                                   (jmul (jmul (Fin 2) sigma) sigma))))
              [0..<nat sz])
           [0..<nat sz])"

definition kernel_at :: "number list list \<Rightarrow> int \<Rightarrow> int \<Rightarrow> error + number" where
  "kernel_at kern i j =
     (if 0 \<le> i \<and> nat i < length kern
      then Inr (let row = kern ! nat i in if 0 \<le> j \<and> nat j < length row then row ! nat j else NaN)
      else Inl TypeError)"

definition gauss_step :: "byte list \<Rightarrow> nat \<Rightarrow> nat \<Rightarrow> number list list \<Rightarrow> int \<Rightarrow> nat \<Rightarrow> nat \<Rightarrow> int \<Rightarrow> int
    \<Rightarrow> number \<times> number \<times> number \<times> number \<Rightarrow> error + number \<times> number \<times> number \<times> number" where
  "gauss_step d w h kern radius x y ky kx = (\<lambda>(r, g, b, weightSum).
     (let px = min (max (int x + kx) 0) (int w - 1);
          py = min (max (int y + ky) 0) (int h - 1)
      in case kernel_at kern (ky + radius) (kx + radius) of
           Inl e \<Rightarrow> Inl e
         | Inr weight \<Rightarrow>
             (let idx = nat (py * int w + px) * 4
              in Inr (jadd r (jmul (num_of_byte (d ! idx)) weight),
                      jadd g (jmul (num_of_byte (d ! (idx + 1))) weight),
                      jadd b (jmul (num_of_byte (d ! (idx + 2))) weight),
                      jadd weightSum weight))))"

definition gauss_sums :: "byte list \<Rightarrow> nat \<Rightarrow> nat \<Rightarrow> number list list \<Rightarrow> int \<Rightarrow> nat \<Rightarrow> nat
    \<Rightarrow> error + number \<times> number \<times> number \<times> number" where
  "gauss_sums d w h kern radius x y =
     for_each [- radius..radius]
       (\<lambda>ky. for_each [- radius..radius] (\<lambda>kx. gauss_step d w h kern radius x y ky kx))
       (Fin 0, Fin 0, Fin 0, Fin 0)"

definition IP_blur_write :: "byte list \<Rightarrow> nat \<Rightarrow> nat \<Rightarrow> number list list \<Rightarrow> int \<Rightarrow> nat \<Rightarrow> nat
    \<Rightarrow> byte list \<Rightarrow> error + byte list" where
  "IP_blur_write d w h kern radius y x output =
     (case gauss_sums d w h kern radius x y of
        Inl e \<Rightarrow> Inl e
      | Inr (r, g, b, weightSum) \<Rightarrow>
          (let outIdx = (y * w + x) * 4
           in Inr (output[outIdx := ToUint8Clamp (jdiv r weightSum),
                          outIdx + 1 := ToUint8Clamp (jdiv g weightSum),
                          outIdx + 2 := ToUint8Clamp (jdiv b weightSum),
                          outIdx + 3 := d ! ((y * w + x) * 4 + 3)])))"

definition IP_blur_pixels :: "byte list \<Rightarrow> nat \<Rightarrow> nat \<Rightarrow> int \<Rightarrow> error + byte list" where
  "IP_blur_pixels d w h kernelSize =
     (let sigma = jdiv (Fin (of_int kernelSize)) (Fin 3);
          kern = createGaussianKernel kernelSize sigma;
          radius = kernelSize div 2
      in for_each [0..<h] (\<lambda>y. for_each [0..<w] (\<lambda>x. IP_blur_write d w h kern radius y x))
           (replicate (4 * w * h) 0))"

text \<open>
  What \<^verbatim>\<open>ImageProcessor.applyGaussianBlur\<close> computes for one channel of one pixel when every
  kernel lookup succeeds: a coordinate outside the image is moved to the nearest border
  pixel, so every entry of the kernel weighs a sample, and the divisor is the sum of all
  entries of the kernel. Sums are taken in the order of the loops, row by row.
\<close>

definition clamp_coord :: "nat \<Rightarrow> int \<Rightarrow> nat" where
  "clamp_coord n i = nat (min (max i 0) (int n - 1))"

definition weight_sum :: "number list list \<Rightarrow> number" where
  "weight_sum kern = fold (\<lambda>row. fold (\<lambda>weight s. jadd s weight) row) kern (Fin 0)"

definition clamped_sum :: "byte list \<Rightarrow> nat \<Rightarrow> nat \<Rightarrow> number list list \<Rightarrow> int \<Rightarrow> nat \<Rightarrow> nat \<Rightarrow> nat
    \<Rightarrow> number" where
  "clamped_sum d w h kern radius x y c =
     fold (\<lambda>ky. fold (\<lambda>kx s.
             jadd s (jmul (num_of_byte
                             (d ! ((clamp_coord h (int y + ky) * w + clamp_coord w (int x + kx)) * 4
                                   + c)))
                          (kern ! nat (ky + radius) ! nat (kx + radius))))
           [- radius..radius])
       [- radius..radius] (Fin 0)"

definition clamping_average :: "byte list \<Rightarrow> nat \<Rightarrow> nat \<Rightarrow> number list list \<Rightarrow> int
    \<Rightarrow> nat \<Rightarrow> nat \<Rightarrow> nat \<Rightarrow> byte" where
  "clamping_average d w h kern radius x y c =
     ToUint8Clamp (jdiv (clamped_sum d w h kern radius x y c) (weight_sum kern))"

text \<open>
  The smoothing of the specification with the weights of a kernel instead of equal weights:
  a sample outside the buffer is skipped, and the divisor is the sum of the weights of the
  samples inside.
\<close>

definition weighted_step :: "byte list \<Rightarrow> nat \<Rightarrow> nat \<Rightarrow> number list list \<Rightarrow> int \<Rightarrow> nat \<Rightarrow> nat \<Rightarrow> nat
    \<Rightarrow> int \<Rightarrow> int \<Rightarrow> number \<times> number \<Rightarrow> number \<times> number" where
  "weighted_step d w h kern radius x y c ky kx = (\<lambda>(s, weightSum).
     if inside w h (int x + kx) (int y + ky)
     then (let weight = kern ! nat (ky + radius) ! nat (kx + radius);
               idx = (nat (int y + ky) * w + nat (int x + kx)) * 4 + c
           in (jadd s (jmul (num_of_byte (d ! idx)) weight), jadd weightSum weight))
     else (s, weightSum))"

definition excluding_weighted_average :: "byte list \<Rightarrow> nat \<Rightarrow> nat \<Rightarrow> number list list \<Rightarrow> int
    \<Rightarrow> nat \<Rightarrow> nat \<Rightarrow> nat \<Rightarrow> byte" where
  "excluding_weighted_average d w h kern radius x y c =
     (case fold (\<lambda>ky. fold (\<lambda>kx. weighted_step d w h kern radius x y c ky kx)
                        [- radius..radius])
             [- radius..radius] (Fin 0, Fin 0) of
        (s, weightSum) \<Rightarrow> ToUint8Clamp (jdiv s weightSum))"

text \<open>
  A buffer of two pixels in one row, black and white, and the kernel that
  \<^verbatim>\<open>applyGaussianBlur\<close> builds for size 3: sigma is \<open>3 / 3\<close>, the weight at offset
  \<open>(dx, dy)\<close> is \<open>exp (- (dx\<^sup>2 + dy\<^sup>2) / 2)\<close>.
\<close>

definition two_px :: "byte list" where
  "two_px = [0, 0, 0, 255,  255, 255, 255, 255]"

definition kernel3 :: "number list list" where
  "kernel3 = createGaussianKernel 3 (jdiv (Fin 3) (Fin 3))"

section \<open>Buffers, image objects and the two pipelines\<close>

text \<open>
  Pixel arrays live in a store and an \<^verbatim>\<open>ImageData\<close> object refers to its array, so that
  writing through one object is seen through every other object on the same array. A new
  array gets the next free reference. \<^verbatim>\<open>new ImageData(width, height)\<close> is zero-filled and
  throws an \<^verbatim>\<open>IndexSizeError\<close> on a zero dimension. An \<^verbatim>\<open>ImageData\<close> is well formed in a
  store when its array is there and has \<open>4 * width * height\<close> channels, with both
  dimensions positive: the platform builds no other.
\<close>

type_synonym heap = "byte list list"

record ImageData =
  data :: nat
  width :: nat
  height :: nat

definition wf_image :: "heap \<Rightarrow> ImageData \<Rightarrow> bool" where
  "wf_image hp img =
     (data img < length hp \<and> 0 < width img \<and> 0 < height img
      \<and> length (hp ! data img) = 4 * width img * height img)"

definition alloc :: "heap \<Rightarrow> byte list \<Rightarrow> nat \<times> heap" where
  "alloc hp a = (length hp, hp @ [a])"

definition new_ImageData :: "heap \<Rightarrow> nat \<Rightarrow> nat \<Rightarrow> error + ImageData \<times> heap" where
  "new_ImageData hp w h =
     (if w = 0 \<or> h = 0 then Inl IndexSizeError
      else (case alloc hp (replicate (4 * w * h) 0) of
              (r, hp') \<Rightarrow> Inr (\<lparr>data = r, width = w, height = h\<rparr>, hp')))"

text \<open>
  The options. \<^verbatim>\<open>ImageProcessor\<close> takes all five fields in one object
  (\<^verbatim>\<open>ProcessingOptions\<close> of imageProcessor.ts). \<^verbatim>\<open>FrameViewer\<close> keeps the two flags in
  \<^verbatim>\<open>options\<close> and the three numbers in \<^verbatim>\<open>processingOptions\<close>; of the latter it reads
  \<^verbatim>\<open>threshold1\<close>, \<^verbatim>\<open>threshold2\<close> and \<^verbatim>\<open>blurSize\<close> only. The sliders deliver integers
  (\<^verbatim>\<open>parseInt\<close>), so \<^verbatim>\<open>blurSize\<close> is an integer.
\<close>

record ViewerOptions =
  grayscale :: bool
  edgeDetection :: bool

record ProcessingOptions = ViewerOptions +
  threshold1 :: number
  threshold2 :: number
  blurSize :: int

subsection \<open>ImageProcessor (imageProcessor.ts)\<close>

text \<open>
  Each method returns the store it leaves behind and either the resulting object or the
  exception thrown. \<^verbatim>\<open>convertToGrayscale\<close> writes into the array of its argument and
  returns the argument itself; the two other stages fill a new \<^verbatim>\<open>ImageData\<close>. The
  processing time, a difference of two clock readings, is not modelled.
\<close>

definition IP_convertToGrayscale :: "heap \<Rightarrow> ImageData \<Rightarrow> heap \<times> ImageData" where
  "IP_convertToGrayscale hp imageData =
     (hp[data imageData := gray_loop 0 (hp ! data imageData)], imageData)"

definition IP_applyGaussianBlur :: "heap \<Rightarrow> ImageData \<Rightarrow> int \<Rightarrow> heap \<times> (error + ImageData)" where
  "IP_applyGaussianBlur hp imageData kernelSize =
     (case new_ImageData hp (width imageData) (height imageData) of
        Inl e \<Rightarrow> (hp, Inl e)
      | Inr (output, hp1) \<Rightarrow>
          (case IP_blur_pixels (hp1 ! data imageData) (width imageData) (height imageData) kernelSize of
             Inl e \<Rightarrow> (hp1, Inl e)
           | Inr out \<Rightarrow> (hp1[data output := out], Inr output)))"

definition IP_applySobelEdgeDetection :: "heap \<Rightarrow> ImageData \<Rightarrow> number \<Rightarrow> number \<Rightarrow> heap \<times> (error + ImageData)" where
  "IP_applySobelEdgeDetection hp imageData lowThreshold highThreshold =
     (case new_ImageData hp (width imageData) (height imageData) of
        Inl e \<Rightarrow> (hp, Inl e)
      | Inr (output, hp1) \<Rightarrow>
          (hp1[data output := IP_sobel_pixels (hp1 ! data imageData) (width imageData)
                                (height imageData) lowThreshold highThreshold],
           Inr output))"

definition IP_processImage :: "heap \<Rightarrow> ImageData \<Rightarrow> ProcessingOptions \<Rightarrow> heap \<times> (error + ImageData)" where
  "IP_processImage hp imageData opts =
     (case (if grayscale opts \<or> edgeDetection opts then IP_convertToGrayscale hp imageData
            else (hp, imageData)) of
        (hp1, processedData) \<Rightarrow>
          if edgeDetection opts
          then (case IP_applyGaussianBlur hp1 processedData (blurSize opts) of
                  (hp2, Inl e) \<Rightarrow> (hp2, Inl e)
                | (hp2, Inr blurred) \<Rightarrow>
                    IP_applySobelEdgeDetection hp2 blurred (threshold1 opts) (threshold2 opts))
          else (hp1, Inr processedData))"

subsection \<open>FrameViewer\<close>

text \<open>
  \<^verbatim>\<open>FrameViewer.processImage\<close> works in place on the array of its argument: grayscale,
  then, for edge detection, the box blur, the Sobel levels, and a last loop that copies each
  level into the three colour channels of its pixel and sets alpha to 255. The simulated
  delay is a timer and is not modelled.
\<close>

function copy_loop :: "byte list \<Rightarrow> nat \<Rightarrow> byte list \<Rightarrow> byte list" where
  "copy_loop edges i d =
     (if i < length d
      then (let edgeValue = edges ! (i div 4)
            in copy_loop edges (i + 4)
                 (d[i + 2 := edgeValue, i + 1 := edgeValue, i := edgeValue, i + 3 := 255]))
      else d)"
  by pat_completeness auto
termination
  by (relation "measure (\<lambda>(edges, i, d). length d - i)") auto

declare copy_loop.simps [simp del]

record FrameViewer =
  currentImage :: "unit option"
  originalImageData :: "ImageData option"
  options :: ViewerOptions
  processingOptions :: ProcessingOptions
  isProcessing :: bool
  canvas :: "byte list"

definition FV_processImage :: "FrameViewer \<Rightarrow> heap \<Rightarrow> ImageData \<Rightarrow> heap" where
  "FV_processImage this hp imageData =
     (let r = data imageData; w = width imageData; h = height imageData;
          hp1 = (if grayscale (options this) \<or> edgeDetection (options this)
                 then hp[r := gray_loop 0 (hp ! r)] else hp)
      in if edgeDetection (options this)
         then (let hp2 = hp1[r := FV_applyGaussianBlur (hp1 ! r) w h (blurSize (processingOptions this))];
                   edges = FV_applySobel (hp2 ! r) w h (threshold1 (processingOptions this))
                             (threshold2 (processingOptions this))
               in hp2[r := copy_loop edges 0 (hp2 ! r)])
         else hp1)"

text \<open>
  \<^verbatim>\<open>FrameViewer.render\<close>: unless no image is loaded or a run is in progress, it copies
  the array of \<^verbatim>\<open>originalImageData\<close> into a new \<^verbatim>\<open>ImageData\<close>, processes the copy and
  draws it.
\<close>

definition render :: "FrameViewer \<times> heap \<Rightarrow> FrameViewer \<times> heap" where
  "render s =
     (case s of (this, hp) \<Rightarrow>
        (case originalImageData this of
           None \<Rightarrow> (this, hp)
         | Some orig \<Rightarrow>
             if currentImage this = None \<or> isProcessing this then (this, hp)
             else (case alloc hp (hp ! data orig) of
                     (r, hp1) \<Rightarrow>
                       (let imageData = \<lparr>data = r, width = width orig, height = height orig\<rparr>;
                            hp2 = FV_processImage (this\<lparr>isProcessing := True\<rparr>) hp1 imageData
                        in (this\<lparr>canvas := hp2 ! r, isProcessing := False\<rparr>, hp2)))))"

section \<open>Loops that write one pixel per iteration\<close>


lemma fold_product:
  "fold (\<lambda>y. fold (f y) xs) ys = fold (\<lambda>(y, x). f y x) (List.product ys xs)"
proof (induction ys)
  case Nil
  show ?case by simp
next
  case (Cons y ys)
  have "fold (\<lambda>(y, x). f y x) (map (Pair y) xs) = fold (f y) xs"
    by (simp add: fold_map comp_def)
  with Cons show ?case by simp
qed

lemma fold_writes_length:
  assumes "\<And>p out. length (step p out) = length out"
  shows "length (fold step ps out) = length out"
  using assms by (induction ps arbitrary: out) simp_all

lemma fold_writes_const:
  assumes step: "\<And>p out. p \<in> set ps \<Longrightarrow> i < length out \<Longrightarrow>
                   step p out ! i = (if P p then V p else out ! i)"
    and len: "\<And>p out. length (step p out) = length out"
    and i: "i < length out"
    and v: "out ! i = v"
    and all: "\<forall>q \<in> set ps. P q \<longrightarrow> V q = v"
  shows "fold step ps out ! i = v"
  using step i v all
proof (induction ps arbitrary: out)
  case Nil
  then show ?case by simp
next
  case (Cons a ps)
  have "step a out ! i = v"
    using Cons.prems by (simp add: Cons.prems(1))
  moreover have "i < length (step a out)"
    using Cons.prems(2) by (simp add: len)
  ultimately show ?case
    using Cons.IH [of "step a out"] Cons.prems by simp
qed

lemma fold_writes_other:
  assumes "\<And>p out. p \<in> set ps \<Longrightarrow> i < length out \<Longrightarrow>
                   step p out ! i = (if P p then V p else out ! i)"
    and "\<And>p out. length (step p out) = length out"
    and "i < length out"
    and "\<forall>q \<in> set ps. \<not> P q"
  shows "fold step ps out ! i = out ! i"
  using assms by (intro fold_writes_const [where P = P and V = V]) auto

lemma fold_writes_hit:
  assumes step: "\<And>p out. p \<in> set ps \<Longrightarrow> i < length out \<Longrightarrow>
                   step p out ! i = (if P p then V p else out ! i)"
    and len: "\<And>p out. length (step p out) = length out"
    and i: "i < length out"
    and p: "p \<in> set ps" "P p"
    and all: "\<forall>q \<in> set ps. P q \<longrightarrow> V q = V p"
  shows "fold step ps out ! i = V p"
proof -
  obtain ys zs where ps: "ps = ys @ p # zs"
    using p(1) by (meson split_list)
  have "fold step ps out = fold step zs (step p (fold step ys out))"
    by (simp add: ps)
  moreover have "i < length (fold step ys out)"
    using i by (simp add: fold_writes_length len)
  moreover have "step p (fold step ys out) ! i = V p"
    using step [OF p(1)] calculation(2) p(2) by simp
  moreover have "fold step zs (step p (fold step ys out)) ! i = V p"
  proof (rule fold_writes_const [where P = P and V = V])
    show "\<And>q out. q \<in> set zs \<Longrightarrow> i < length out \<Longrightarrow> step q out ! i = (if P q then V q else out ! i)"
      using step by (simp add: ps)
    show "\<And>p out. length (step p out) = length out" by (rule len)
    show "i < length (step p (fold step ys out))" using calculation(2) by (simp add: len)
    show "step p (fold step ys out) ! i = V p" by fact
    show "\<forall>q\<in>set zs. P q \<longrightarrow> V q = V p" using all by (simp add: ps)
  qed
  ultimately show ?thesis by simp
qed

lemma pixel_index_unique:
  fixes x y x' y' w :: nat
  assumes "x < w" "x' < w" "y * w + x = y' * w + x'"
  shows "y = y' \<and> x = x'"
proof -
  have "y = (y * w + x) div w" using assms(1) by simp
  also have "\<dots> = (y' * w + x') div w" by (simp only: assms(3))
  also have "\<dots> = y'" using assms(2) by simp
  finally have "y = y'" .
  then show ?thesis using assms(3) by simp
qed

lemma upto_m1_1: "[-1..1] = [-1, 0, 1::int]"
  by (simp add: upto.simps)

lemma sobel_index:
  assumes "1 \<le> x" "1 \<le> y" "- 1 \<le> ky" "- 1 \<le> kx"
  shows "nat ((int y + ky) * int w + (int x + kx)) = nat (int y + ky) * w + nat (int x + kx)"
proof -
  have "0 \<le> int y + ky" "0 \<le> int x + kx" using assms by auto
  then show ?thesis
    by (simp add: nat_add_distrib nat_mult_distrib)
qed

lemma conv_step_red:
  assumes "1 \<le> x" "1 \<le> y" "- 1 \<le> ky" "- 1 \<le> kx"
  shows "conv_step d w x y ky kx (gx, gy) =
           (gx + red_at d w (nat (int x + kx)) (nat (int y + ky)) * sobelX ! nat ((ky + 1) * 3 + (kx + 1)),
            gy + red_at d w (nat (int x + kx)) (nat (int y + ky)) * sobelY ! nat ((ky + 1) * 3 + (kx + 1)))"
  by (simp add: conv_step_def red_at_def sobel_index [OF assms] Let_def)

lemma convolve_Sobel:
  assumes "1 \<le> x" "1 \<le> y"
  shows "convolve d w x y = (Gx d w x y, Gy d w x y)"
proof -
  have n: "nat (int x - 1) = x - 1" "nat (int y - 1) = y - 1"
          "nat (int x + 1) = x + 1" "nat (int y + 1) = y + 1"
    by simp_all
  show ?thesis
    using assms
    by (simp add: convolve_def upto_m1_1 conv_step_red sobelX_def sobelY_def Gx_def Gy_def n
        del: of_nat_diff)
qed


lemma bitlen_numeral:
  "bitlen (numeral n) = bitlen (numeral n div 2) + 1" "bitlen 1 = 1"
  by (subst compute_bitlen, simp)+

lemmas fl_eval = fl_def expo_def roundHalfEven_def pow2_def Let_def bitlen_numeral

lemma pixel_in_range:
  fixes x y w h :: nat
  assumes "x < w" "y < h"
  shows "y * w + x < w * h"
proof -
  have "y * w + x < y * w + w" using assms(1) by simp
  also have "\<dots> = (y + 1) * w" by simp
  also have "\<dots> \<le> h * w" using assms(2) by (intro mult_le_mono1) simp
  finally show ?thesis by (simp add: mult.commute)
qed

lemma fold_pixels_length:
  assumes "\<And>y x out. length (step y x out) = length out"
  shows "length (fold (\<lambda>y. fold (\<lambda>x. step y x) xs) ys out) = length out"
  unfolding fold_product by (rule fold_writes_length) (auto simp: assms)

lemma fold_pixels_nth:
  fixes x y w :: nat
  assumes step: "\<And>y' x' out. y' \<in> set ys \<Longrightarrow> x' \<in> set xs \<Longrightarrow> i < length out \<Longrightarrow>
                   step y' x' out ! i = (if y' * w + x' = y * w + x then V x' y' else out ! i)"
    and len: "\<And>y' x' out. length (step y' x' out) = length out"
    and i: "i < length out"
    and xs: "\<forall>x' \<in> set xs. x' < w"
    and x: "x < w"
  shows "fold (\<lambda>y'. fold (\<lambda>x'. step y' x') xs) ys out ! i =
           (if y \<in> set ys \<and> x \<in> set xs then V x y else out ! i)"
proof -
  let ?ps = "List.product ys xs"
  let ?step = "\<lambda>(y', x'). step y' x'"
  let ?P = "\<lambda>(y', x'). y' * w + x' = y * w + x"
  let ?V = "\<lambda>(y', x'). V x' y'"
  have st: "\<And>p out. p \<in> set ?ps \<Longrightarrow> i < length out \<Longrightarrow>
      ?step p out ! i = (if ?P p then ?V p else out ! i)"
    using step by auto
  have ln: "\<And>p out. length (?step p out) = length out"
    using len by auto
  have same: "y' = y \<and> x' = x" if "y' * w + x' = y * w + x" "x' \<in> set xs" for y' x'
    using pixel_index_unique [of x' w x y' y] that xs x by simp
  show ?thesis
  proof (cases "y \<in> set ys \<and> x \<in> set xs")
    case True
    then have p: "(y, x) \<in> set ?ps" by simp
    have Pp: "?P (y, x)" by simp
    have all: "\<forall>q \<in> set ?ps. ?P q \<longrightarrow> ?V q = ?V (y, x)"
      using same by auto
    have "fold ?step ?ps out ! i = ?V (y, x)"
      by (rule fold_writes_hit [where P = ?P and V = ?V, OF st ln i p Pp all])
    with True show ?thesis by (simp add: fold_product)
  next
    case False
    have none: "\<forall>q \<in> set ?ps. \<not> ?P q"
      using same False by auto
    have "fold ?step ?ps out ! i = out ! i"
      by (rule fold_writes_other [where P = ?P and V = ?V, OF st ln i none])
    with False show ?thesis by (auto simp add: fold_product)
  qed
qed

lemma interior_upt: "(y \<in> set [1..<h - 1] \<and> x \<in> set [1..<w - 1]) = interior w h x y"
  by (auto simp: interior_def)

lemma FV_applySobel_length: "length (FV_applySobel d w h lo hi) = w * h"
  unfolding FV_applySobel_def by (subst fold_pixels_length) auto

lemma FV_applySobel_nth:
  assumes "x < w" "y < h"
  shows "FV_applySobel d w h lo hi ! (y * w + x) =
           (if interior w h x y then edge_level d w lo hi x y else 0)"
proof -
  have i: "y * w + x < length (replicate (w * h) (0::byte))"
    using pixel_in_range [OF assms] by simp
  have "FV_applySobel d w h lo hi ! (y * w + x) =
          (if y \<in> set [1..<h - 1] \<and> x \<in> set [1..<w - 1] then edge_level d w lo hi x y
           else replicate (w * h) 0 ! (y * w + x))"
    unfolding FV_applySobel_def
    by (rule fold_pixels_nth [where w = w, OF _ _ i _ assms(1)]) (auto simp: nth_list_update)
  then show ?thesis
    using i by (simp only: interior_upt) simp
qed

lemma quad_write_nth:
  fixes a b c :: nat
  assumes "c < 4" "b * 4 + c < length out"
  shows "out[a * 4 + 2 := v, a * 4 + 1 := v, a * 4 := v, a * 4 + 3 := al] ! (b * 4 + c) =
           (if a = b then (if c = 3 then al else v) else out ! (b * 4 + c))"
  using assms by (auto simp: nth_list_update)

lemma channel_in_range:
  fixes x y w h c :: nat
  assumes "x < w" "y < h" "c < 4"
  shows "(y * w + x) * 4 + c < 4 * w * h"
  using pixel_in_range [OF assms(1,2)] assms(3) by simp

lemma IP_applySobel_length: "length (IP_sobel_pixels d w h lo hi) = 4 * w * h"
  unfolding IP_sobel_pixels_def
  by (subst fold_pixels_length) (auto simp: IP_sobel_write_def Let_def)

lemma IP_applySobel_nth:
  assumes "x < w" "y < h" "c < 4"
  shows "IP_sobel_pixels d w h lo hi ! ((y * w + x) * 4 + c) =
           (if interior w h x y then (if c = 3 then 255 else edge_level d w lo hi x y) else 0)"
proof -
  let ?i = "(y * w + x) * 4 + c"
  have i: "?i < length (replicate (4 * w * h) (0::byte))"
    using channel_in_range [OF assms] by simp
  have "IP_sobel_pixels d w h lo hi ! ?i =
          (if y \<in> set [1..<h - 1] \<and> x \<in> set [1..<w - 1]
           then (if c = 3 then 255 else edge_level d w lo hi x y)
           else replicate (4 * w * h) 0 ! ?i)"
    unfolding IP_sobel_pixels_def
  proof (rule fold_pixels_nth [where w = w, OF _ _ i _ assms(1)])
    fix y' x' and out :: "byte list"
    assume "?i < length out"
    then show "IP_sobel_write d w lo hi y' x' out ! ?i =
        (if y' * w + x' = y * w + x then if c = 3 then 255 else edge_level d w lo hi x' y' else out ! ?i)"
      unfolding IP_sobel_write_def Let_def
      by (subst quad_write_nth [OF assms(3)]) auto
  qed (auto simp: IP_sobel_write_def Let_def)
  then show ?thesis
    using i by (simp only: interior_upt) simp
qed


lemma edge_level_Sobel:
  assumes "interior w h x y"
  shows "edge_level d w lo hi x y = doubleThreshold (gradient_magnitude d w h x y) lo hi"
  using assms
  by (simp add: edge_level_def gradient_magnitude_def magnitude_def convolve_Sobel interior_def)

lemma doubleThreshold_zero:
  assumes "0 \<le> l" "0 \<le> u"
  shows "doubleThreshold (Fin 0) (Fin l) (Fin u) = 0"
  using assms by (simp add: doubleThreshold_def)

text \<open>
  Claim C5: both Sobel loops evaluate the gradient at interior pixels only. There the level
  written is the double threshold of \<open>sqrt (Gx\<^sup>2 + Gy\<^sup>2)\<close>, with \<open>Gx\<close> and \<open>Gy\<close> the two
  3x3 Sobel sums over the red channel; every border pixel keeps the level 0 of the fresh
  output, which is the level of magnitude 0 for non-negative thresholds.
\<close>

theorem gradient_border_excluded:
  assumes "x < w" "y < h"
  shows "FV_applySobel d w h lo hi ! (y * w + x) =
           (if interior w h x y then doubleThreshold (gradient_magnitude d w h x y) lo hi else 0)
       \<and> (\<forall>c<3. IP_sobel_pixels d w h lo hi ! ((y * w + x) * 4 + c) =
           (if interior w h x y then doubleThreshold (gradient_magnitude d w h x y) lo hi else 0))
       \<and> (interior w h x y \<longrightarrow> convolve d w x y = (Gx d w x y, Gy d w x y))
       \<and> (\<not> interior w h x y \<longrightarrow> gradient_magnitude d w h x y = Fin 0)
       \<and> (0 \<le> l \<and> 0 \<le> u \<longrightarrow>
            FV_applySobel d w h (Fin l) (Fin u) ! (y * w + x) =
              doubleThreshold (gradient_magnitude d w h x y) (Fin l) (Fin u))"
proof -
  have FV: "FV_applySobel d w h lo' hi' ! (y * w + x) =
      (if interior w h x y then doubleThreshold (gradient_magnitude d w h x y) lo' hi' else 0)"
    for lo' hi'
    using FV_applySobel_nth [OF assms] edge_level_Sobel by simp
  have IP: "IP_sobel_pixels d w h lo hi ! ((y * w + x) * 4 + c) =
      (if interior w h x y then doubleThreshold (gradient_magnitude d w h x y) lo hi else 0)"
    if "c < 3" for c
    using IP_applySobel_nth [OF assms, of c] edge_level_Sobel that by simp
  have conv: "interior w h x y \<longrightarrow> convolve d w x y = (Gx d w x y, Gy d w x y)"
    by (simp add: interior_def convolve_Sobel)
  have border: "\<not> interior w h x y \<longrightarrow> gradient_magnitude d w h x y = Fin 0"
    by (simp add: gradient_magnitude_def)
  have nonneg: "0 \<le> l \<and> 0 \<le> u \<longrightarrow>
      FV_applySobel d w h (Fin l) (Fin u) ! (y * w + x) =
        doubleThreshold (gradient_magnitude d w h x y) (Fin l) (Fin u)"
    using FV [of "Fin l" "Fin u"] border doubleThreshold_zero by auto
  from FV IP conv border nonneg show ?thesis by blast
qed

lemma sqrt_1040400: "sqrt 1040400 = 1020"
  by (rule real_sqrt_unique) simp_all

lemma fl_1020: "fl 1020 = 1020"
  by (simp add: fl_eval)

lemma Gx_step3: "Gx step3 3 (Suc 0) (Suc 0) = 1020"
  by (simp add: Gx_def red_at_def step3_def)

lemma Gy_step3: "Gy step3 3 (Suc 0) (Suc 0) = 0"
  by (simp add: Gy_def red_at_def step3_def)

theorem gradient_border_excluded_witness:
  "FV_applySobel step3 3 3 (Fin 50) (Fin 150) ! 4 = 255
   \<and> FV_applySobel step3 3 3 (Fin 50) (Fin 150) ! 0 = 0
   \<and> IP_sobel_pixels step3 3 3 (Fin 50) (Fin 150) ! 16 = 255
   \<and> convolve step3 3 1 1 = (1020, 0)"
proof -
  have i: "interior 3 3 (Suc 0) (Suc 0)" "\<not> interior 3 3 0 0"
    by (simp_all add: interior_def)
  have m: "gradient_magnitude step3 3 3 (Suc 0) (Suc 0) = Fin 1020"
    by (simp add: gradient_magnitude_def i Gx_step3 Gy_step3 sqrt_1040400 fl_1020)
  have a: "(1::nat) < 3" "(0::nat) < 3" by simp_all
  note t1 = gradient_border_excluded [OF a(1) a(1), of step3 "Fin 50" "Fin 150" 50 150]
  note t0 = gradient_border_excluded [OF a(2) a(2), of step3 "Fin 50" "Fin 150" 50 150]
  from t1 have "FV_applySobel step3 3 3 (Fin 50) (Fin 150) ! (1 * 3 + 1) =
      (if interior 3 3 1 1 then doubleThreshold (gradient_magnitude step3 3 3 1 1) (Fin 50) (Fin 150) else 0)"
    by blast
  then have fv1: "FV_applySobel step3 3 3 (Fin 50) (Fin 150) ! 4 = 255"
    by (simp add: i m doubleThreshold_def)
  from t0 have "FV_applySobel step3 3 3 (Fin 50) (Fin 150) ! (0 * 3 + 0) =
      (if interior 3 3 0 0 then doubleThreshold (gradient_magnitude step3 3 3 0 0) (Fin 50) (Fin 150) else 0)"
    by blast
  then have fv0: "FV_applySobel step3 3 3 (Fin 50) (Fin 150) ! 0 = 0"
    by (simp add: i)
  from t1 have "\<forall>c<3. IP_sobel_pixels step3 3 3 (Fin 50) (Fin 150) ! ((1 * 3 + 1) * 4 + c) =
      (if interior 3 3 1 1 then doubleThreshold (gradient_magnitude step3 3 3 1 1) (Fin 50) (Fin 150) else 0)"
    by blast
  from this [THEN spec, of 0] have ip: "IP_sobel_pixels step3 3 3 (Fin 50) (Fin 150) ! 16 = 255"
    by (simp add: i m doubleThreshold_def)
  from t1 have "interior 3 3 1 1 \<longrightarrow> convolve step3 3 1 1 = (Gx step3 3 1 1, Gy step3 3 1 1)"
    by blast
  then have cv: "convolve step3 3 1 1 = (1020, 0)"
    by (simp add: i Gx_step3 Gy_step3)
  from fv1 fv0 ip cv show ?thesis by blast
qed

lemma pixel_decompose:
  fixes i w h :: nat
  assumes "i < w * h"
  obtains x y where "x < w" "y < h" "i = y * w + x"
proof -
  have w: "0 < w" using assms by (cases w) simp_all
  have "i mod w < w" using w by simp
  moreover have "i div w < h" using assms by (simp add: less_mult_imp_div_less mult.commute)
  moreover have "i = (i div w) * w + i mod w" by simp
  ultimately show ?thesis using that by blast
qed

lemma channel_decompose:
  fixes i w h :: nat
  assumes "i < 4 * w * h"
  obtains x y c where "x < w" "y < h" "c < 4" "i = (y * w + x) * 4 + c"
proof -
  have "i div 4 < w * h" using assms by auto
  then obtain x y where xy: "x < w" "y < h" "i div 4 = y * w + x"
    by (rule pixel_decompose)
  have "i = (i div 4) * 4 + i mod 4" by simp
  with xy show ?thesis using that [of x y "i mod 4"] by simp
qed

lemma doubleThreshold_inverted:
  assumes "hi \<le> lo"
  shows "doubleThreshold m (Fin lo) (Fin hi) = 0 \<or> doubleThreshold m (Fin lo) (Fin hi) = 255"
  using assms by (cases m) (auto simp: doubleThreshold_def)

text \<open>
  Claim C10: with \<open>lowThreshold \<ge> highThreshold\<close> the weak level 128 is never written:
  every magnitude classifies to 0 or 255, so does every byte of both Sobel outputs, and a
  magnitude above \<open>highThreshold\<close> is strong (255) whatever \<open>lowThreshold\<close> is.
\<close>

theorem inverted_thresholds_never_weak:
  assumes "hi \<le> lo"
  shows "doubleThreshold m (Fin lo) (Fin hi) \<noteq> 128
       \<and> (doubleThreshold m (Fin lo) (Fin hi) = 0 \<or> doubleThreshold m (Fin lo) (Fin hi) = 255)
       \<and> (jgt m (Fin hi) \<longrightarrow> doubleThreshold m lowT (Fin hi) = 255)
       \<and> (\<forall>i < w * h. FV_applySobel d w h (Fin lo) (Fin hi) ! i = 0
                       \<or> FV_applySobel d w h (Fin lo) (Fin hi) ! i = 255)
       \<and> (\<forall>i < 4 * w * h. IP_sobel_pixels d w h (Fin lo) (Fin hi) ! i = 0
                       \<or> IP_sobel_pixels d w h (Fin lo) (Fin hi) ! i = 255)"
proof -
  have lv: "doubleThreshold m' (Fin lo) (Fin hi) = 0 \<or> doubleThreshold m' (Fin lo) (Fin hi) = 255" for m'
    by (rule doubleThreshold_inverted [OF assms])
  then have el: "edge_level d w (Fin lo) (Fin hi) x y = 0 \<or> edge_level d w (Fin lo) (Fin hi) x y = 255" for x y
    by (simp add: edge_level_def)
  have a: "doubleThreshold m (Fin lo) (Fin hi) \<noteq> 128"
    using lv [of m] by auto
  have b: "jgt m (Fin hi) \<longrightarrow> doubleThreshold m lowT (Fin hi) = 255"
    by (simp add: doubleThreshold_def)
  have c: "FV_applySobel d w h (Fin lo) (Fin hi) ! i = 0
         \<or> FV_applySobel d w h (Fin lo) (Fin hi) ! i = 255" if "i < w * h" for i
  proof -
    from that obtain x y where "x < w" "y < h" "i = y * w + x" by (rule pixel_decompose)
    then show ?thesis using FV_applySobel_nth [of x w y h d "Fin lo" "Fin hi"] el [of x y] by auto
  qed
  have e: "IP_sobel_pixels d w h (Fin lo) (Fin hi) ! i = 0
         \<or> IP_sobel_pixels d w h (Fin lo) (Fin hi) ! i = 255" if "i < 4 * w * h" for i
  proof -
    from that obtain x y c where "x < w" "y < h" "c < 4" "i = (y * w + x) * 4 + c"
      by (rule channel_decompose)
    then show ?thesis
      using IP_applySobel_nth [of x w y h c d "Fin lo" "Fin hi"] el [of x y] by auto
  qed
  from a lv [of m] b c e show ?thesis by blast
qed

theorem inverted_thresholds_never_weak_witness:
  "(100::real) \<le> 150 \<and> jgt (Fin 1020) (Fin 100)
   \<and> doubleThreshold (Fin 120) (Fin 150) (Fin 100) = 255
   \<and> doubleThreshold (Fin 100) (Fin 150) (Fin 100) = 0
   \<and> FV_applySobel step3 3 3 (Fin 150) (Fin 100) ! 4 \<noteq> 128"
proof -
  have h: "(100::real) \<le> 150" by simp
  note t = inverted_thresholds_never_weak [OF h, of "Fin 120" "Fin 150" 3 3 step3]
  from t have "\<forall>i < 3 * 3. FV_applySobel step3 3 3 (Fin 150) (Fin 100) ! i = 0
      \<or> FV_applySobel step3 3 3 (Fin 150) (Fin 100) ! i = 255"
    by blast
  then have "FV_applySobel step3 3 3 (Fin 150) (Fin 100) ! 4 = 0
      \<or> FV_applySobel step3 3 3 (Fin 150) (Fin 100) ! 4 = 255"
    by simp
  then have "FV_applySobel step3 3 3 (Fin 150) (Fin 100) ! 4 \<noteq> 128"
    by auto
  then show ?thesis
    by (simp add: doubleThreshold_def)
qed

section \<open>Effects of the two pipelines on the store\<close>

lemma gray_loop_length [simp]: "length (gray_loop i d) = length d"
proof (induction i d rule: gray_loop.induct)
  case (1 i d)
  show ?case
  proof (cases "i < length d")
    case True
    then show ?thesis
      using "1.IH" [OF True refl] by (subst gray_loop.simps) (simp add: Let_def)
  next
    case False
    then show ?thesis by (subst gray_loop.simps) simp
  qed
qed

lemma copy_loop_length [simp]: "length (copy_loop edges i d) = length d"
proof (induction edges i d rule: copy_loop.induct)
  case (1 edges i d)
  show ?case
  proof (cases "i < length d")
    case True
    then show ?thesis
      using "1.IH" [OF True refl] by (subst copy_loop.simps) (simp add: Let_def)
  next
    case False
    then show ?thesis by (subst copy_loop.simps) simp
  qed
qed

lemma FV_processImage_length [simp]: "length (FV_processImage this hp img) = length hp"
  by (simp add: FV_processImage_def Let_def)

lemma FV_processImage_frame:
  assumes "r \<noteq> data img"
  shows "FV_processImage this hp img ! r = hp ! r"
  using assms by (simp add: FV_processImage_def Let_def)

lemma FV_processImage_off:
  assumes "\<not> grayscale (options this)" "\<not> edgeDetection (options this)"
  shows "FV_processImage this hp img = hp"
  using assms by (simp add: FV_processImage_def Let_def)

lemma render_frame:
  assumes "r < length hp"
  shows "snd (render (this, hp)) ! r = hp ! r"
proof (cases "originalImageData this")
  case None
  then show ?thesis by (simp add: render_def)
next
  case (Some orig)
  show ?thesis
  proof (cases "currentImage this = None \<or> isProcessing this")
    case True
    then show ?thesis using Some by (auto simp: render_def)
  next
    case False
    let ?img = "\<lparr>data = length hp, width = width orig, height = height orig\<rparr>"
    have "snd (render (this, hp)) =
        FV_processImage (this\<lparr>isProcessing := True\<rparr>) (hp @ [hp ! data orig]) ?img"
      using Some False by (simp add: render_def alloc_def Let_def)
    moreover have "r \<noteq> data ?img" using assms by simp
    ultimately show ?thesis
      using assms by (simp add: FV_processImage_frame nth_append)
  qed
qed

lemma new_ImageData_Inr:
  assumes "0 < w" "0 < h"
  shows "new_ImageData hp w h =
           Inr (\<lparr>data = length hp, width = w, height = h\<rparr>, hp @ [replicate (4 * w * h) 0])"
  using assms by (simp add: new_ImageData_def alloc_def)

lemma new_ImageData_cases:
  "new_ImageData hp w h = Inl IndexSizeError \<or>
   new_ImageData hp w h = Inr (\<lparr>data = length hp, width = w, height = h\<rparr>, hp @ [replicate (4 * w * h) 0])"
  by (simp add: new_ImageData_def alloc_def)

lemma IP_applyGaussianBlur_frame:
  assumes "r < length hp"
  shows "fst (IP_applyGaussianBlur hp img k) ! r = hp ! r"
    and "length hp \<le> length (fst (IP_applyGaussianBlur hp img k))"
  using assms new_ImageData_cases [of hp "width img" "height img"]
  by (auto simp: IP_applyGaussianBlur_def nth_append split: sum.splits)

lemma IP_applySobelEdgeDetection_frame:
  assumes "r < length hp"
  shows "fst (IP_applySobelEdgeDetection hp img lo hi) ! r = hp ! r"
  using assms new_ImageData_cases [of hp "width img" "height img"]
  by (auto simp: IP_applySobelEdgeDetection_def nth_append split: sum.splits)

lemma IP_processImage_frame:
  assumes "r < length hp"
  shows "fst (IP_processImage hp img opts) ! r =
           (if r = data img \<and> (grayscale opts \<or> edgeDetection opts)
            then gray_loop 0 (hp ! r) else hp ! r)"
proof -
  let ?hp1 = "if grayscale opts \<or> edgeDetection opts then hp[data img := gray_loop 0 (hp ! data img)] else hp"
  have len: "length ?hp1 = length hp" by simp
  have hp1: "?hp1 ! r = (if r = data img \<and> (grayscale opts \<or> edgeDetection opts)
            then gray_loop 0 (hp ! r) else hp ! r)"
    using assms by (auto simp: nth_list_update)
  show ?thesis
  proof (cases "edgeDetection opts")
    case False
    then show ?thesis
      using hp1 by (auto simp: IP_processImage_def IP_convertToGrayscale_def)
  next
    case True
    obtain hp2 res where b: "IP_applyGaussianBlur ?hp1 img (blurSize opts) = (hp2, res)"
      by (cases "IP_applyGaussianBlur ?hp1 img (blurSize opts)")
    have r1: "r < length ?hp1" using assms len by simp
    have hp2: "hp2 ! r = ?hp1 ! r" "length ?hp1 \<le> length hp2"
      using IP_applyGaussianBlur_frame [OF r1, of img "blurSize opts"] b by simp_all
    then have r2: "r < length hp2" using r1 by simp
    show ?thesis
    proof (cases res)
      case (Inl e)
      then show ?thesis
        using True b hp2 hp1 by (simp add: IP_processImage_def IP_convertToGrayscale_def)
    next
      case (Inr blurred)
      then show ?thesis
        using True b hp2 hp1 IP_applySobelEdgeDetection_frame [OF r2]
        by (simp add: IP_processImage_def IP_convertToGrayscale_def)
    qed
  qed
qed


lemma luminance_red: "ToUint8Clamp (luminance 255 0 0) = 76"
  by (simp add: luminance_def num_of_byte_def fl_eval)

lemma gray_loop_red: "gray_loop 0 [255, 0, 0, 255] = [76, 76, 76, 255]"
  by (simp add: gray_loop.simps luminance_red)

text \<open>
  Claim C1, as the code has it: no buffer that exists before \<^verbatim>\<open>FrameViewer.render\<close> is
  changed by it (it works on a copy of \<^verbatim>\<open>originalImageData\<close>), and
  \<^verbatim>\<open>ImageProcessor.processImage\<close> changes no existing buffer but the one passed to it,
  which it overwrites in place with its grayscale whenever grayscale or edge detection is
  enabled; smoothing and Sobel write to new buffers.
\<close>

theorem source_buffer_effect:
  assumes "r < length hp"
  shows "snd (render (this, hp)) ! r = hp ! r
       \<and> fst (IP_processImage hp img opts) ! r =
           (if r = data img \<and> (grayscale opts \<or> edgeDetection opts)
            then gray_loop 0 (hp ! r) else hp ! r)"
  using render_frame [OF assms] IP_processImage_frame [OF assms] by simp

theorem source_buffer_effect_witness:
  "snd (render (\<lparr>currentImage = Some (), originalImageData = Some \<lparr>data = 0, width = 1, height = 1\<rparr>,
                   options = \<lparr>grayscale = True, edgeDetection = False\<rparr>,
                   processingOptions = \<lparr>grayscale = False, edgeDetection = False,
                     threshold1 = Fin 50, threshold2 = Fin 150, blurSize = 5\<rparr>,
                   isProcessing = False, canvas = []\<rparr>, [[255, 0, 0, 255]])) ! 0 = [255, 0, 0, 255]
   \<and> fst (IP_processImage [[255, 0, 0, 255]] \<lparr>data = 0, width = 1, height = 1\<rparr>
            \<lparr>grayscale = True, edgeDetection = False,
             threshold1 = Fin 50, threshold2 = Fin 150, blurSize = 5\<rparr>) ! 0 = [76, 76, 76, 255]"
proof -
  have l: "0 < length [[255, 0, 0, 255 :: byte]]" by simp
  show ?thesis
    using source_buffer_effect [OF l]
    by (simp add: gray_loop_red)
qed

text \<open>
  Claim C1 as stated fails on \<^verbatim>\<open>ImageProcessor.processImage\<close>: with grayscale enabled, a
  buffer holding one red pixel holds the grey pixel (76, 76, 76, 255) afterwards.
\<close>

theorem processImage_overwrites_argument:
  "fst (IP_processImage [[255, 0, 0, 255]] \<lparr>data = 0, width = 1, height = 1\<rparr>
         \<lparr>grayscale = True, edgeDetection = False,
          threshold1 = Fin 50, threshold2 = Fin 150, blurSize = 5\<rparr>) ! 0 = [76, 76, 76, 255]
   \<and> fst (IP_processImage [[255, 0, 0, 255]] \<lparr>data = 0, width = 1, height = 1\<rparr>
         \<lparr>grayscale = True, edgeDetection = False,
          threshold1 = Fin 50, threshold2 = Fin 150, blurSize = 5\<rparr>) ! 0 \<noteq> [[255, 0, 0, 255]] ! 0"
proof -
  have l: "0 < length [[255, 0, 0, 255 :: byte]]" by simp
  show ?thesis
    using IP_processImage_frame [OF l]
    by (simp add: gray_loop_red)
qed

text \<open>
  Claim C8: with grayscale and edge detection both disabled,
  \<^verbatim>\<open>ImageProcessor.processImage\<close> returns the object it was given and leaves the store as
  it is; \<^verbatim>\<open>FrameViewer.processImage\<close> leaves the store as it is, and \<^verbatim>\<open>render\<close> draws an
  unchanged copy of the original pixels.
\<close>

theorem disabled_pipeline_is_identity:
  "(\<not> grayscale opts \<and> \<not> edgeDetection opts \<longrightarrow> IP_processImage hp img opts = (hp, Inr img))
   \<and> (\<not> grayscale (options this) \<and> \<not> edgeDetection (options this) \<longrightarrow>
        FV_processImage this hp img = hp)
   \<and> (\<not> grayscale (options this) \<and> \<not> edgeDetection (options this)
        \<and> originalImageData this = Some orig \<and> currentImage this \<noteq> None \<and> \<not> isProcessing this \<longrightarrow>
        snd (render (this, hp)) = hp @ [hp ! data orig]
        \<and> canvas (fst (render (this, hp))) = hp ! data orig)"
proof -
  have a: "\<not> grayscale opts \<and> \<not> edgeDetection opts \<longrightarrow> IP_processImage hp img opts = (hp, Inr img)"
    by (simp add: IP_processImage_def)
  have b: "\<not> grayscale (options this) \<and> \<not> edgeDetection (options this) \<longrightarrow>
        FV_processImage this hp img = hp"
    by (simp add: FV_processImage_off)
  have c: "\<not> grayscale (options this) \<and> \<not> edgeDetection (options this)
        \<and> originalImageData this = Some orig \<and> currentImage this \<noteq> None \<and> \<not> isProcessing this \<longrightarrow>
        snd (render (this, hp)) = hp @ [hp ! data orig]
        \<and> canvas (fst (render (this, hp))) = hp ! data orig"
    by (auto simp: render_def alloc_def Let_def FV_processImage_off)
  from a b c show ?thesis by blast
qed

theorem disabled_pipeline_is_identity_witness:
  "IP_processImage [[255, 0, 0, 255]] \<lparr>data = 0, width = 1, height = 1\<rparr>
     \<lparr>grayscale = False, edgeDetection = False,
      threshold1 = Fin 50, threshold2 = Fin 150, blurSize = 5\<rparr>
   = ([[255, 0, 0, 255]], Inr \<lparr>data = 0, width = 1, height = 1\<rparr>)
   \<and> canvas (fst (render (\<lparr>currentImage = Some (), originalImageData = Some \<lparr>data = 0, width = 1, height = 1\<rparr>,
                   options = \<lparr>grayscale = False, edgeDetection = False\<rparr>,
                   processingOptions = \<lparr>grayscale = False, edgeDetection = False,
                     threshold1 = Fin 50, threshold2 = Fin 150, blurSize = 5\<rparr>,
                   isProcessing = False, canvas = []\<rparr>, [[255, 0, 0, 255]]))) = [255, 0, 0, 255]"
  using disabled_pipeline_is_identity [of
      "\<lparr>grayscale = False, edgeDetection = False,
        threshold1 = Fin 50, threshold2 = Fin 150, blurSize = 5\<rparr>"
      "[[255, 0, 0, 255]]" "\<lparr>data = 0, width = 1, height = 1\<rparr>"
      "\<lparr>currentImage = Some (), originalImageData = Some \<lparr>data = 0, width = 1, height = 1\<rparr>,
                   options = \<lparr>grayscale = False, edgeDetection = False\<rparr>,
                   processingOptions = \<lparr>grayscale = False, edgeDetection = False,
                     threshold1 = Fin 50, threshold2 = Fin 150, blurSize = 5\<rparr>,
                   isProcessing = False, canvas = []\<rparr>"
      "\<lparr>data = 0, width = 1, height = 1\<rparr>"]
  by simp

section \<open>Rounding to binary64 and to 8-bit channels\<close>

lemma pow2_powi: "pow2 e = 2 powi e"
  by (simp add: pow2_def power_int_def inverse_eq_divide power_one_over)

lemma pow2_pos [simp]: "0 < pow2 e"
  by (simp add: pow2_powi)

lemma pow2_add: "pow2 (a + b) = pow2 a * pow2 b"
  by (simp add: pow2_powi power_int_add)

lemma pow2_nat: "0 \<le> e \<Longrightarrow> pow2 e = 2 ^ nat e"
  by (simp add: pow2_def)

lemma roundHalfEven_error: "\<bar>real_of_int (roundHalfEven y) - y\<bar> \<le> 1 / 2"
  unfolding roundHalfEven_def Let_def by (auto simp: abs_if) linarith+

lemma roundHalfEven_near:
  assumes "\<bar>y - of_int n\<bar> < 1 / 2"
  shows "roundHalfEven y = n"
proof -
  have "\<bar>real_of_int (roundHalfEven y) - of_int n\<bar> < 1"
    using roundHalfEven_error [of y] assms by linarith
  then have "\<bar>real_of_int (roundHalfEven y - n)\<bar> < 1" by simp
  then have "\<bar>roundHalfEven y - n\<bar> < 1" by linarith
  then show ?thesis by simp
qed

lemma roundHalfEven_int [simp]: "roundHalfEven (of_int n) = n"
  by (rule roundHalfEven_near) simp

lemma pow2_le_real:
  assumes "(2::int) ^ k \<le> m"
  shows "(2::real) ^ k \<le> of_int m"
proof -
  have "real_of_int (2 ^ k) \<le> of_int m" using assms by (simp only: of_int_le_iff)
  then show ?thesis by simp
qed

lemma less_pow2_real:
  assumes "m < (2::int) ^ k"
  shows "of_int m + 1 \<le> (2::real) ^ k"
proof -
  have "m + 1 \<le> 2 ^ k" using assms by simp
  then have "real_of_int (m + 1) \<le> of_int (2 ^ k)" by (simp only: of_int_le_iff)
  then show ?thesis by simp
qed

lemma expo_bounds:
  assumes "0 < x"
  shows "pow2 (expo x) \<le> x" and "x < pow2 (expo x + 1)"
proof -
  have "pow2 (expo x) \<le> x \<and> x < pow2 (expo x + 1)"
  proof (cases "1 \<le> x")
    case True
    let ?n = "\<lfloor>x\<rfloor>"
    have n: "0 < ?n" using True by simp
    have e: "expo x = bitlen ?n - 1" using True by (simp add: expo_def)
    have b1: "1 \<le> bitlen ?n" using n by (simp add: bitlen_alt_def)
    have "(2::int) ^ nat (bitlen ?n - 1) \<le> ?n" "?n < 2 ^ nat (bitlen ?n)"
      using bitlen_bounds [OF n] by simp_all
    then have lo: "(2::real) ^ nat (bitlen ?n - 1) \<le> of_int ?n"
      and hi: "of_int ?n + 1 \<le> (2::real) ^ nat (bitlen ?n)"
      by (simp_all add: pow2_le_real less_pow2_real)
    have fx: "of_int ?n \<le> x" "x < of_int ?n + 1" by linarith+
    have en: "nat (bitlen ?n - 1 + 1) = nat (bitlen ?n)" by simp
    have p1: "pow2 (expo x) = 2 ^ nat (bitlen ?n - 1)"
      using b1 by (simp add: e pow2_nat)
    have p2: "pow2 (expo x + 1) = 2 ^ nat (bitlen ?n)"
      using b1 by (simp add: e pow2_nat)
    have "pow2 (expo x) \<le> x"
      unfolding p1 using lo fx(1) by linarith
    moreover have "x < pow2 (expo x + 1)"
      unfolding p2 using hi fx(2) by linarith
    ultimately show ?thesis by simp
  next
    case False
    let ?m = "\<lfloor>1 / x\<rfloor>"
    let ?k = "bitlen ?m - 1"
    have x1: "x < 1" using False by simp
    have "1 < 1 / x" using assms x1 by simp
    then have m: "0 < ?m" by linarith
    have b1: "1 \<le> bitlen ?m" using m by (simp add: bitlen_alt_def)
    then have k0: "0 \<le> ?k" by simp
    have "(2::int) ^ nat ?k \<le> ?m" "?m < 2 ^ nat (bitlen ?m)"
      using bitlen_bounds [OF m] by simp_all
    then have lo: "(2::real) ^ nat ?k \<le> of_int ?m"
      and hi: "of_int ?m + 1 \<le> (2::real) ^ nat (bitlen ?m)"
      by (simp_all add: pow2_le_real less_pow2_real)
    have nb: "nat (bitlen ?m) = Suc (nat ?k)" using b1 by simp
    have fx: "of_int ?m \<le> 1 / x" "1 / x < of_int ?m + 1" by linarith+
    have le: "2 ^ nat ?k \<le> 1 / x" using lo fx(1) by linarith
    have "1 / x < 2 ^ nat (bitlen ?m)" using hi fx(2) by linarith
    then have lt: "1 / x < 2 * 2 ^ nat ?k" by (simp add: nb)
    have xle: "x * 2 ^ nat ?k \<le> 1"
      using le assms by (simp add: field_simps)
    have xgt: "1 < x * (2 * 2 ^ nat ?k)"
      using lt assms by (simp add: field_simps)
    show ?thesis
    proof (cases "x * 2 ^ nat ?k = 1")
      case True
      then have e: "expo x = - ?k" using False by (simp add: expo_def Let_def)
      have k1: "1 \<le> ?k"
      proof (rule ccontr)
        assume "\<not> 1 \<le> ?k"
        then have "?k = 0" using k0 by simp
        then show False using True x1 by simp
      qed
      have xe: "x = 1 / 2 ^ nat ?k" using True by (simp add: field_simps)
      have p1: "pow2 (- ?k) = 1 / 2 ^ nat ?k"
        using k1 by (simp add: pow2_def)
      have "pow2 (- ?k + 1) = pow2 (- ?k) * pow2 1" by (rule pow2_add)
      then have p2: "pow2 (- ?k + 1) = 2 * x"
        using p1 xe by (simp add: pow2_def)
      show ?thesis
        using p1 p2 xe assms by (simp add: e)
    next
      case neq: False
      then have e: "expo x = - (?k + 1)" using False by (simp add: expo_def Let_def)
      have "nat (?k + 1) = Suc (nat ?k)" using k0 by simp
      then have p1: "pow2 (- (?k + 1)) = 1 / (2 * 2 ^ nat ?k)"
        using k0 by (simp add: pow2_def del: diff_add_cancel)
      have p2: "pow2 (- (?k + 1) + 1) = 1 / 2 ^ nat ?k"
        using k0 by (auto simp: pow2_def)
      have "1 / (2 * 2 ^ nat ?k) \<le> x"
        using xgt by (simp add: field_simps)
      moreover have "x < 1 / 2 ^ nat ?k"
        using xle neq by (simp add: field_simps)
      ultimately show ?thesis
        using p1 p2 by (simp add: e)
    qed
  qed
  then show "pow2 (expo x) \<le> x" and "x < pow2 (expo x + 1)" by simp_all
qed

lemma fl_error:
  "\<bar>fl x - x\<bar> \<le> \<bar>x\<bar> / 2 ^ 53"
proof (cases "x = 0")
  case True
  then show ?thesis by (simp add: fl_def)
next
  case False
  let ?e = "expo \<bar>x\<bar>"
  let ?p = "pow2 (?e - 52)"
  have ax: "0 < \<bar>x\<bar>" using False by simp
  have fl: "fl x = of_int (roundHalfEven (x / ?p)) * ?p"
    using False by (simp add: fl_def Let_def)
  have pnz: "?p \<noteq> 0" using pow2_pos [of "?e - 52"] by linarith
  have "fl x - x = (of_int (roundHalfEven (x / ?p)) - x / ?p) * ?p"
    using pnz by (simp add: fl field_simps)
  then have "\<bar>fl x - x\<bar> = \<bar>of_int (roundHalfEven (x / ?p)) - x / ?p\<bar> * \<bar>?p\<bar>"
    by (simp only: abs_mult)
  also have "\<bar>?p\<bar> = ?p"
    by (rule abs_of_pos) simp
  finally have "\<bar>fl x - x\<bar> = \<bar>of_int (roundHalfEven (x / ?p)) - x / ?p\<bar> * ?p" .
  then have "\<bar>fl x - x\<bar> = \<bar>of_int (roundHalfEven (x / ?p)) - x / ?p\<bar> * ?p" .
  also have "\<dots> \<le> 1 / 2 * ?p"
    by (intro mult_right_mono roundHalfEven_error less_imp_le pow2_pos)
  also have "?p = pow2 ?e * pow2 (- 52)"
    using pow2_add [of ?e "- 52"] by simp
  also have "1 / 2 * (pow2 ?e * pow2 (- 52)) = pow2 ?e / 2 ^ 53"
    by (simp add: pow2_def)
  also have "\<dots> \<le> \<bar>x\<bar> / 2 ^ 53"
    using expo_bounds(1) [OF ax] by (simp add: divide_right_mono)
  finally show ?thesis .
qed

lemma fl_int:
  assumes "\<bar>n\<bar> < 2 ^ 53"
  shows "fl (of_int n) = of_int n"
proof (cases "n = 0")
  case True
  then show ?thesis by (simp add: fl_def)
next
  case False
  let ?x = "real_of_int n"
  let ?e = "expo \<bar>?x\<bar>"
  have ax: "0 < \<bar>?x\<bar>" using False by simp
  have "pow2 ?e \<le> \<bar>?x\<bar>" by (rule expo_bounds(1) [OF ax])
  also have "\<bar>?x\<bar> < 2 ^ 53"
    using assms by (metis of_int_abs of_int_less_iff of_int_numeral of_int_power)
  finally have pe: "pow2 ?e < 2 ^ 53" .
  have e: "?e < 53"
  proof (rule ccontr)
    assume "\<not> ?e < 53"
    then have "53 \<le> nat ?e" "0 \<le> ?e" by simp_all
    then have "pow2 ?e = 2 ^ nat ?e"
      by (simp add: pow2_nat)
    moreover have "(2::real) ^ 53 \<le> 2 ^ nat ?e"
      by (rule power_increasing) (use \<open>53 \<le> nat ?e\<close> in simp_all)
    ultimately show False using pe by linarith
  qed
  define k where "k = nat (52 - ?e)"
  have p: "pow2 (?e - 52) = 1 / 2 ^ k"
  proof (cases "?e = 52")
    case True
    then show ?thesis by (simp add: k_def pow2_def)
  next
    case False
    then have "?e - 52 < 0" using e by simp
    then show ?thesis by (simp add: k_def pow2_def)
  qed
  have "?x / pow2 (?e - 52) = of_int (n * 2 ^ k)"
    by (simp add: p)
  then have "roundHalfEven (?x / pow2 (?e - 52)) = n * 2 ^ k"
    by (simp only: roundHalfEven_int)
  then show ?thesis
    using False by (simp add: fl_def Let_def p)
qed

lemma fl_nat: "n < 2 ^ 53 \<Longrightarrow> fl (real n) = real n"
  using fl_int [of "int n"] by (simp add: of_nat_less_numeral_power_cancel_iff)

lemma unat_byte_le: "unat (v::byte) \<le> 255"
  using unsigned_less [of v, where 'a = nat] by simp

lemma ToUint8Clamp_nat:
  assumes "n \<le> 255"
  shows "ToUint8Clamp (Fin (real n)) = (word_of_nat n :: byte)"
proof -
  have r: "roundHalfEven (real n) = int n"
    using roundHalfEven_int [of "int n"] by simp
  consider "n = 0" | "n = 255" | "0 < n" "n < 255" using assms by linarith
  then show ?thesis
  proof cases
    case 1
    then show ?thesis by simp
  next
    case 2
    then show ?thesis by simp
  next
    case 3
    then show ?thesis by (simp add: r)
  qed
qed

lemma ToUint8Clamp_byte [simp]: "ToUint8Clamp (num_of_byte v) = v"
  unfolding num_of_byte_def
  using ToUint8Clamp_nat [OF unat_byte_le [of v]] by simp

section \<open>Grayscale\<close>

lemma fl_error_1024:
  assumes "- 1024 \<le> x" "x \<le> 1024"
  shows "x - 1 / 8796093022208 \<le> fl x \<and> fl x \<le> x + 1 / 8796093022208"
proof -
  have "\<bar>fl x - x\<bar> \<le> \<bar>x\<bar> / 2 ^ 53" by (rule fl_error)
  also have "\<dots> \<le> 1024 / 2 ^ 53" using assms by (simp add: divide_right_mono)
  also have "\<dots> = 1 / 8796093022208" by simp
  finally show ?thesis by linarith
qed

lemma scaled_weight:
  fixes v a c e :: real
  assumes "0 \<le> v" "v \<le> 255" "c - e \<le> a \<and> a \<le> c + e"
  shows "v * c - 255 * e \<le> v * a \<and> v * a \<le> v * c + 255 * e"
proof -
  have e: "0 \<le> e" using assms(3) by linarith
  have "v * (c - e) \<le> v * a" "v * a \<le> v * (c + e)"
    using assms by (simp_all add: mult_left_mono)
  moreover have "v * e \<le> 255 * e"
    using assms(2) e by (simp add: mult_right_mono)
  ultimately show ?thesis unfolding right_diff_distrib distrib_left by linarith
qed

lemma ToUint8Clamp_near:
  assumes "n \<le> 255" "\<bar>y - real n\<bar> < 1 / 2"
  shows "ToUint8Clamp (Fin y) = (word_of_nat n :: byte)"
proof -
  have r: "roundHalfEven y = int n"
    using roundHalfEven_near [of y "int n"] assms(2) by simp
  have z: "n = 0" if "y \<le> 0"
  proof -
    have "real n < 1" using that assms(2) by linarith
    then show ?thesis by simp
  qed
  have m: "n = 255" if "255 \<le> y"
  proof -
    have "254 < real n" using that assms(2) by linarith
    then have "254 < n" by simp
    then show ?thesis using assms(1) by simp
  qed
  show ?thesis
    using z m by (auto simp: r)
qed

lemma luminance_gray: "ToUint8Clamp (luminance g g g) = g"
proof -
  define v where "v = real (unat g)"
  define a1 where "a1 = fl (299 / 1000)"
  define a2 where "a2 = fl (587 / 1000)"
  define a3 where "a3 = fl (114 / 1000)"
  define t1 where "t1 = fl (v * a1)"
  define t2 where "t2 = fl (v * a2)"
  define t3 where "t3 = fl (v * a3)"
  define s where "s = fl (t1 + t2)"
  define y where "y = fl (s + t3)"
  have lum: "luminance g g g = Fin y"
    by (simp add: luminance_def num_of_byte_def y_def s_def t1_def t2_def t3_def
        a1_def a2_def a3_def v_def)
  have "real (unat g) \<le> real 255"
    using unat_byte_le [of g] by (simp only: of_nat_le_iff)
  then have v255: "v \<le> 255"
    by (simp add: v_def)
  have v0: "0 \<le> v"
    unfolding v_def by (rule of_nat_0_le_iff)
  note v = v0 v255
  have a: "299 / 1000 - 1 / 8796093022208 \<le> a1 \<and> a1 \<le> 299 / 1000 + 1 / 8796093022208"
          "587 / 1000 - 1 / 8796093022208 \<le> a2 \<and> a2 \<le> 587 / 1000 + 1 / 8796093022208"
          "114 / 1000 - 1 / 8796093022208 \<le> a3 \<and> a3 \<le> 114 / 1000 + 1 / 8796093022208"
    unfolding a1_def a2_def a3_def by (rule fl_error_1024, simp, simp)+
  note p1 = scaled_weight [OF v a(1)]
  note p2 = scaled_weight [OF v a(2)]
  note p3 = scaled_weight [OF v a(3)]
  have b1: "- 1024 \<le> v * a1" "v * a1 \<le> 1024" using p1 v by linarith+
  have b2: "- 1024 \<le> v * a2" "v * a2 \<le> 1024" using p2 v by linarith+
  have b3: "- 1024 \<le> v * a3" "v * a3 \<le> 1024" using p3 v by linarith+
  have t1: "v * a1 - 1 / 8796093022208 \<le> t1 \<and> t1 \<le> v * a1 + 1 / 8796093022208"
    unfolding t1_def by (rule fl_error_1024 [OF b1])
  have t2: "v * a2 - 1 / 8796093022208 \<le> t2 \<and> t2 \<le> v * a2 + 1 / 8796093022208"
    unfolding t2_def by (rule fl_error_1024 [OF b2])
  have t3: "v * a3 - 1 / 8796093022208 \<le> t3 \<and> t3 \<le> v * a3 + 1 / 8796093022208"
    unfolding t3_def by (rule fl_error_1024 [OF b3])
  have bs: "- 1024 \<le> t1 + t2" "t1 + t2 \<le> 1024"
    using p1 p2 t1 t2 v by linarith+
  have s: "t1 + t2 - 1 / 8796093022208 \<le> s \<and> s \<le> t1 + t2 + 1 / 8796093022208"
    unfolding s_def by (rule fl_error_1024 [OF bs])
  have bsy: "- 1024 \<le> s + t3" "s + t3 \<le> 1024"
    using p1 p2 p3 t1 t2 t3 s v by linarith+
  have y: "s + t3 - 1 / 8796093022208 \<le> y \<and> y \<le> s + t3 + 1 / 8796093022208"
    unfolding y_def by (rule fl_error_1024 [OF bsy])
  have "\<bar>y - v\<bar> < 1 / 2"
    using p1 p2 p3 t1 t2 t3 s y v by linarith
  then have "ToUint8Clamp (Fin y) = (word_of_nat (unat g) :: byte)"
    using unat_byte_le [of g] unfolding v_def by (intro ToUint8Clamp_near)
  then show ?thesis by (simp add: lum)
qed


lemma gray_loop_nth:
  assumes "4 dvd i" "4 dvd length d" "j < length d"
  shows "gray_loop i d ! j =
           (if j < i \<or> j mod 4 = 3 then d ! j
            else ToUint8Clamp (luminance (d ! (j - j mod 4)) (d ! (j - j mod 4 + 1))
                                         (d ! (j - j mod 4 + 2))))"
  using assms
proof (induction i d rule: gray_loop.induct)
  case (1 i d)
  show ?case
  proof (cases "i < length d")
    case False
    then show ?thesis
      using "1.prems" by (subst gray_loop.simps) simp
  next
    case True
    define gray where "gray = ToUint8Clamp (luminance (d ! i) (d ! (i + 1)) (d ! (i + 2)))"
    define d' where "d' = d[i := gray, i + 1 := gray, i + 2 := gray]"
    have step: "gray_loop i d = gray_loop (i + 4) d'"
      using True by (subst gray_loop.simps) (simp add: gray_def d'_def Let_def)
    have len: "length d' = length d" by (simp add: d'_def)
    have IH: "gray_loop (i + 4) d' ! j =
           (if j < i + 4 \<or> j mod 4 = 3 then d' ! j
            else ToUint8Clamp (luminance (d' ! (j - j mod 4)) (d' ! (j - j mod 4 + 1))
                                         (d' ! (j - j mod 4 + 2))))"
      using "1.IH" [OF True gray_def] "1.prems" len
      by (simp add: d'_def)
    have i3: "i + 3 < length d"
      using True "1.prems"(1,2) by (elim dvdE) auto
    show ?thesis
    proof (cases "j < i + 4")
      case far: False
      then have b: "i + 4 \<le> j - j mod 4"
        using "1.prems"(1) by (elim dvdE) presburger
      then have "d' ! (j - j mod 4) = d ! (j - j mod 4)"
        "d' ! (j - j mod 4 + 1) = d ! (j - j mod 4 + 1)"
        "d' ! (j - j mod 4 + 2) = d ! (j - j mod 4 + 2)"
        "d' ! j = d ! j"
        using far by (simp_all add: d'_def)
      then show ?thesis
        using far by (simp add: step IH)
    next
      case near: True
      have upd: "d' ! i = gray" "d' ! (i + 1) = gray" "d' ! (i + 2) = gray" "d' ! (i + 3) = d ! (i + 3)"
        using i3 by (simp_all add: d'_def)
      show ?thesis
      proof (cases "j < i")
        case True
        then have "d' ! j = d ! j" by (simp add: d'_def)
        then show ?thesis using near True by (simp add: step IH)
      next
        case False
        then consider "j = i" | "j = i + 1" | "j = i + 2" | "j = i + 3"
          using near by linarith
        then show ?thesis
        proof cases
          case 1
          then have jm: "j mod 4 = 0" "d' ! j = gray"
            using "1.prems"(1) upd by (presburger, simp)
          have "gray_loop i d ! j = gray"
            using near by (simp add: step IH jm(2))
          then show ?thesis
            using jm(1) 1 by (simp add: gray_def)
        next
          case 2
          then have jm: "j mod 4 = 1" "d' ! j = gray"
            using "1.prems"(1) upd by (presburger, simp)
          have "gray_loop i d ! j = gray"
            using near by (simp add: step IH jm(2))
          then show ?thesis
            using jm(1) 2 by (simp add: gray_def)
        next
          case 3
          then have jm: "j mod 4 = 2" "d' ! j = gray"
            using "1.prems"(1) upd by (presburger, simp)
          have "gray_loop i d ! j = gray"
            using near by (simp add: step IH jm(2))
          then show ?thesis
            using jm(1) 3 by (simp add: gray_def)
        next
          case 4
          then have jm: "j mod 4 = 3" "d' ! j = d ! j"
            using "1.prems"(1) upd by (presburger, simp)
          show ?thesis
            using near False by (simp add: step IH jm)
        qed
      qed
    qed
  qed
qed

lemma gray_loop_block:
  assumes "length d = 4 * k" "q < k" "c < 4"
  shows "gray_loop 0 d ! (4 * q + c) =
           (if c = 3 then d ! (4 * q + 3)
            else ToUint8Clamp (luminance (d ! (4 * q)) (d ! (4 * q + 1)) (d ! (4 * q + 2))))"
proof -
  have l: "4 dvd length d" "4 * q + c < length d"
    using assms by simp_all
  have m: "(4 * q + c) mod 4 = c" "4 * q + c - c = 4 * q"
    using assms(3) by simp_all
  show ?thesis
    using gray_loop_nth [OF dvd_0_right l] assms(3) by (auto simp add: m)
qed

lemma gray_loop_idem:
  assumes "4 dvd length d"
  shows "gray_loop 0 (gray_loop 0 d) = gray_loop 0 d"
proof (rule nth_equalityI)
  show "length (gray_loop 0 (gray_loop 0 d)) = length (gray_loop 0 d)" by simp
next
  fix j assume "j < length (gray_loop 0 (gray_loop 0 d))"
  then have j: "j < length d" by simp
  let ?d1 = "gray_loop 0 d"
  obtain k where k: "length d = 4 * k" using assms by (elim dvdE)
  define q c where "q = j div 4" and "c = j mod 4"
  have jq: "j = 4 * q + c" and c: "c < 4" by (simp_all add: q_def c_def)
  have q: "q < k" using j k jq by linarith
  define G where "G = ToUint8Clamp (luminance (d ! (4 * q)) (d ! (4 * q + 1)) (d ! (4 * q + 2)))"
  have k1: "length ?d1 = 4 * k" using k by simp
  have g: "?d1 ! (4 * q) = G" "?d1 ! Suc (4 * q) = G" "?d1 ! Suc (Suc (4 * q)) = G"
    using gray_loop_block [OF k q, of 0] gray_loop_block [OF k q, of 1]
      gray_loop_block [OF k q, of 2]
    by (simp_all add: G_def)
  have "gray_loop 0 ?d1 ! (4 * q + c) =
      (if c = 3 then ?d1 ! (4 * q + 3) else ToUint8Clamp (luminance G G G))"
    using gray_loop_block [OF k1 q c] by (simp add: g)
  also have "\<dots> = (if c = 3 then ?d1 ! (4 * q + 3) else G)"
    by (simp add: luminance_gray)
  also have "\<dots> = ?d1 ! (4 * q + c)"
    using gray_loop_block [OF k q c] by (auto simp add: G_def)
  finally show "gray_loop 0 ?d1 ! j = ?d1 ! j" by (simp add: jq)
qed


text \<open>
  Claim C7: the grayscale loop is idempotent on every array of whole pixels, as the array
  of an \<^verbatim>\<open>ImageData\<close> is: a second run finds red = green = blue = g in every pixel, and
  the binary64 sum \<open>g * 0.299 + g * 0.587 + g * 0.114\<close> stored into an 8-bit channel is \<open>g\<close>
  again. So it is for \<^verbatim>\<open>ImageProcessor.convertToGrayscale\<close> and for the grayscale stage of
  \<^verbatim>\<open>FrameViewer.processImage\<close>.
\<close>

theorem grayscale_idempotent:
  assumes "4 dvd length d"
  shows "gray_loop 0 (gray_loop 0 d) = gray_loop 0 d
       \<and> (data img < length hp \<and> hp ! data img = d \<longrightarrow>
            fst (IP_convertToGrayscale (fst (IP_convertToGrayscale hp img)) img)
              = fst (IP_convertToGrayscale hp img))
       \<and> (data img < length hp \<and> hp ! data img = d
            \<and> grayscale (options this) \<and> \<not> edgeDetection (options this) \<longrightarrow>
            FV_processImage this (FV_processImage this hp img) img = FV_processImage this hp img)"
  using gray_loop_idem [OF assms]
  by (auto simp: IP_convertToGrayscale_def FV_processImage_def Let_def)

theorem grayscale_idempotent_witness:
  "gray_loop 0 (gray_loop 0 [255, 0, 0, 255]) = [76, 76, 76, 255]
   \<and> gray_loop 0 [255, 0, 0, 255] = [76, 76, 76, 255]"
proof -
  have l: "4 dvd length [255, 0, 0, 255 :: byte]" by (simp add: eval_nat_numeral)
  show ?thesis
    using grayscale_idempotent [OF l] by (simp add: gray_loop_red)
qed

section \<open>The box blur\<close>

lemma box_step_eq:
  "box_step temp w h x y dy dx (r, g, b, n) =
     (let k = (nat (int y + dy) * w + nat (int x + dx)) * 4;
          i = inside w h (int x + dx) (int y + dy)
      in (r + (if i then unat (temp ! k) else 0),
          g + (if i then unat (temp ! (k + 1)) else 0),
          b + (if i then unat (temp ! (k + 2)) else 0),
          n + (if i then 1 else 0)))"
  by (simp add: box_step_def inside_def Let_def)

lemma box_fold_inner:
  "fold (\<lambda>dx. box_step temp w h x y dy dx) dxs (r, g, b, n) =
     (r + (\<Sum>dx\<leftarrow>dxs. if inside w h (int x + dx) (int y + dy)
             then unat (temp ! ((nat (int y + dy) * w + nat (int x + dx)) * 4)) else 0),
      g + (\<Sum>dx\<leftarrow>dxs. if inside w h (int x + dx) (int y + dy)
             then unat (temp ! ((nat (int y + dy) * w + nat (int x + dx)) * 4 + 1)) else 0),
      b + (\<Sum>dx\<leftarrow>dxs. if inside w h (int x + dx) (int y + dy)
             then unat (temp ! ((nat (int y + dy) * w + nat (int x + dx)) * 4 + 2)) else 0),
      n + (\<Sum>dx\<leftarrow>dxs. if inside w h (int x + dx) (int y + dy) then 1 else 0))"
  by (induction dxs arbitrary: r g b n) (simp_all add: box_step_eq Let_def)

lemma box_fold_outer:
  "fold (\<lambda>dy. fold (\<lambda>dx. box_step temp w h x y dy dx) dxs) dys (r, g, b, n) =
     (r + (\<Sum>dy\<leftarrow>dys. \<Sum>dx\<leftarrow>dxs. if inside w h (int x + dx) (int y + dy)
             then unat (temp ! ((nat (int y + dy) * w + nat (int x + dx)) * 4)) else 0),
      g + (\<Sum>dy\<leftarrow>dys. \<Sum>dx\<leftarrow>dxs. if inside w h (int x + dx) (int y + dy)
             then unat (temp ! ((nat (int y + dy) * w + nat (int x + dx)) * 4 + 1)) else 0),
      b + (\<Sum>dy\<leftarrow>dys. \<Sum>dx\<leftarrow>dxs. if inside w h (int x + dx) (int y + dy)
             then unat (temp ! ((nat (int y + dy) * w + nat (int x + dx)) * 4 + 2)) else 0),
      n + (\<Sum>dy\<leftarrow>dys. \<Sum>dx\<leftarrow>dxs. if inside w h (int x + dx) (int y + dy) then 1 else 0))"
  by (induction dys arbitrary: r g b n) (simp_all add: box_fold_inner)

lemma window_alt:
  "window w h r x y =
     {(nx, ny). nx < w \<and> ny < h \<and> \<bar>int nx - int x\<bar> \<le> r \<and> \<bar>int ny - int y\<bar> \<le> r}"
  by (auto simp: window_def)

lemma finite_window [simp]: "finite (window w h r x y)"
  by (simp add: window_def)

lemma window_reindex:
  fixes V :: "nat \<Rightarrow> nat \<Rightarrow> nat"
  shows "(\<Sum>dy\<leftarrow>[- r..r]. \<Sum>dx\<leftarrow>[- r..r].
            if inside w h (int x + dx) (int y + dy)
            then V (nat (int x + dx)) (nat (int y + dy)) else 0)
         = (\<Sum>p \<in> window w h r x y. V (fst p) (snd p))"
proof -
  let ?A = "{- r..r} \<times> {- r..r}"
  let ?A' = "{(dy, dx). (dy, dx) \<in> ?A \<and> inside w h (int x + dx) (int y + dy)}"
  let ?g = "\<lambda>(dy, dx). if inside w h (int x + dx) (int y + dy)
                         then V (nat (int x + dx)) (nat (int y + dy)) else 0"
  have "(\<Sum>dy\<leftarrow>[- r..r]. \<Sum>dx\<leftarrow>[- r..r].
            if inside w h (int x + dx) (int y + dy)
            then V (nat (int x + dx)) (nat (int y + dy)) else 0)
        = (\<Sum>dy \<in> {- r..r}. \<Sum>dx \<in> {- r..r}. ?g (dy, dx))"
    by (simp flip: sum_set_upto_conv_sum_list_int)
  also have "\<dots> = sum ?g ?A"
    by (simp add: sum.cartesian_product)
  also have "\<dots> = sum ?g ?A'"
    by (rule sum.mono_neutral_right) (auto split: if_splits)
  also have "\<dots> = (\<Sum>p \<in> window w h r x y. V (fst p) (snd p))"
    by (rule sum.reindex_bij_witness
          [where i = "\<lambda>(nx, ny). (int ny - int y, int nx - int x)"
             and j = "\<lambda>(dy, dx). (nat (int x + dx), nat (int y + dy))"])
       (auto simp: window_alt inside_def)
  finally show ?thesis .
qed

lemma box_sums_window:
  "box_sums temp w h r x y =
     (window_sum temp w h r x y 0, window_sum temp w h r x y 1, window_sum temp w h r x y 2,
      card (window w h r x y))"
proof -
  have c: "(\<Sum>dy\<leftarrow>[- r..r]. \<Sum>dx\<leftarrow>[- r..r].
              if inside w h (int x + dx) (int y + dy) then 1 else 0) = card (window w h r x y)"
    using window_reindex [where V = "\<lambda>_ _. 1" and r = r and w = w and h = h and x = x and y = y] by simp
  have s: "(\<Sum>dy\<leftarrow>[- r..r]. \<Sum>dx\<leftarrow>[- r..r].
              if inside w h (int x + dx) (int y + dy)
              then unat (temp ! ((nat (int y + dy) * w + nat (int x + dx)) * 4 + k)) else 0)
           = window_sum temp w h r x y k" for k
    using window_reindex [where V = "\<lambda>nx ny. unat (temp ! ((ny * w + nx) * 4 + k))"
        and r = r and w = w and h = h and x = x and y = y]
    by (simp add: window_sum_def)
  have s0: "(\<Sum>dy\<leftarrow>[- r..r]. \<Sum>dx\<leftarrow>[- r..r].
              if inside w h (int x + dx) (int y + dy)
              then unat (temp ! ((nat (int y + dy) * w + nat (int x + dx)) * 4)) else 0)
           = window_sum temp w h r x y 0"
    using window_reindex [where V = "\<lambda>nx ny. unat (temp ! ((ny * w + nx) * 4))"
        and r = r and w = w and h = h and x = x and y = y]
    by (simp add: window_sum_def)
  show ?thesis
    unfolding box_sums_def box_fold_outer s0 s c by simp
qed


lemma triple_write_nth:
  fixes a b c :: nat
  assumes "c < 4" "b * 4 + c < length out"
  shows "out[a * 4 := v0, a * 4 + 1 := v1, a * 4 + 2 := v2] ! (b * 4 + c) =
           (if a = b \<and> c < 3 then [v0, v1, v2] ! c else out ! (b * 4 + c))"
proof -
  have n: "a * 4 \<noteq> b * 4 + 3" "Suc (a * 4) \<noteq> b * 4 + 3" "Suc (Suc (a * 4)) \<noteq> b * 4 + 3"
    by presburger+
  consider "c = 0" | "c = 1" | "c = 2" | "c = 3" using assms(1) by linarith
  then show ?thesis
    using assms(2) by cases (auto simp: nth_list_update n)
qed

lemma fold_pixels_keep:
  assumes "\<And>y' x' out. i < length out \<Longrightarrow> step y' x' out ! i = out ! i"
    and "\<And>y' x' out. length (step y' x' out) = length out"
    and "i < length out"
  shows "fold (\<lambda>y'. fold (\<lambda>x'. step y' x') xs) ys out ! i = out ! i"
  unfolding fold_product
  by (rule fold_writes_other [where P = "\<lambda>_. False" and V = "\<lambda>_. out ! i"])
     (auto simp: assms)

lemma FV_blur_write_length [simp]: "length (FV_blur_write temp w h r y x out) = length out"
  by (simp add: FV_blur_write_def Let_def split: prod.splits)

lemma FV_applyGaussianBlur_length [simp]: "length (FV_applyGaussianBlur d w h r) = length d"
  unfolding FV_applyGaussianBlur_def Let_def by (rule fold_pixels_length) simp

lemma FV_blur_write_nth:
  assumes "c < 4" "(y * w + x) * 4 + c < length out"
  shows "FV_blur_write temp w h r y' x' out ! ((y * w + x) * 4 + c) =
           (if y' * w + x' = y * w + x \<and> c < 3
            then box_average (window_sum temp w h r x' y' c) (card (window w h r x' y'))
            else out ! ((y * w + x) * 4 + c))"
proof -
  let ?A = "\<lambda>k. box_average (window_sum temp w h r x' y' k) (card (window w h r x' y'))"
  have eq: "FV_blur_write temp w h r y' x' out =
      out[(y' * w + x') * 4 := ?A 0, (y' * w + x') * 4 + 1 := ?A 1, (y' * w + x') * 4 + 2 := ?A 2]"
    unfolding FV_blur_write_def box_sums_window Let_def prod.case ..
  consider "c = 0" | "c = 1" | "c = 2" | "c = 3" using assms(1) by linarith
  then have "(if y' * w + x' = y * w + x \<and> c < 3 then [?A 0, ?A 1, ?A 2] ! c
              else out ! ((y * w + x) * 4 + c)) =
             (if y' * w + x' = y * w + x \<and> c < 3 then ?A c else out ! ((y * w + x) * 4 + c))"
    by cases simp_all
  then show ?thesis
    by (simp only: eq triple_write_nth [OF assms])
qed

lemma FV_blur_nth:
  assumes "length d = 4 * w * h" "x < w" "y < h" "c < 4"
  shows "FV_applyGaussianBlur d w h r ! ((y * w + x) * 4 + c) =
           (if c < 3 then excluding_average d w h r x y c else d ! ((y * w + x) * 4 + c))"
proof -
  let ?i = "(y * w + x) * 4 + c"
  have i: "?i < length d"
    using channel_in_range [OF assms(2,3,4)] assms(1) by simp
  show ?thesis
  proof (cases "c < 3")
    case True
    have "fold (\<lambda>y'. fold (\<lambda>x'. FV_blur_write d w h r y' x') [0..<w]) [0..<h] d ! ?i =
        (if y \<in> set [0..<h] \<and> x \<in> set [0..<w]
         then box_average (window_sum d w h r x y c) (card (window w h r x y)) else d ! ?i)"
    proof (rule fold_pixels_nth [where w = w, OF _ _ i _ assms(2)])
      fix y' x' and out :: "byte list"
      assume "?i < length out"
      from FV_blur_write_nth [OF assms(4) this, of d h r y' x'] True
      show "FV_blur_write d w h r y' x' out ! ?i =
          (if y' * w + x' = y * w + x
           then box_average (window_sum d w h r x' y' c) (card (window w h r x' y'))
           else out ! ?i)"
        by simp
    qed simp_all
    then show ?thesis
      using True assms(2,3)
      by (simp add: FV_applyGaussianBlur_def excluding_average_def box_average_def)
  next
    case False
    have "fold (\<lambda>y'. fold (\<lambda>x'. FV_blur_write d w h r y' x') [0..<w]) [0..<h] d ! ?i = d ! ?i"
    proof (rule fold_pixels_keep [OF _ _ i])
      fix y' x' and out :: "byte list"
      assume "?i < length out"
      from FV_blur_write_nth [OF assms(4) this, of d h r y' x'] False
      show "FV_blur_write d w h r y' x' out ! ?i = out ! ?i"
        by simp
    qed simp
    then show ?thesis
      using False by (simp add: FV_applyGaussianBlur_def)
  qed
qed

lemma span_subset:
  "{n \<in> {..<w}. \<bar>int n - int x\<bar> \<le> r} \<subseteq> {x - nat r..min (w - 1) (x + nat r)}"
  by auto

lemma span_card_le:
  assumes "0 \<le> r"
  shows "card ({n \<in> {..<w}. \<bar>int n - int x\<bar> \<le> r}) \<le> 2 * nat r + 1"
proof -
  have "card ({n \<in> {..<w}. \<bar>int n - int x\<bar> \<le> r})
          \<le> card {x - nat r..min (w - 1) (x + nat r)}"
    by (rule card_mono [OF _ span_subset]) simp
  also have "\<dots> \<le> 2 * nat r + 1" by simp
  finally show ?thesis .
qed

lemma span_card_edge:
  assumes "0 \<le> r" "x < w" "x < nat r \<or> w \<le> x + nat r"
  shows "card ({n \<in> {..<w}. \<bar>int n - int x\<bar> \<le> r}) \<le> 2 * nat r"
proof -
  have "card ({n \<in> {..<w}. \<bar>int n - int x\<bar> \<le> r})
          \<le> card {x - nat r..min (w - 1) (x + nat r)}"
    by (rule card_mono [OF _ span_subset]) simp
  also have "\<dots> \<le> 2 * nat r" using assms(2,3) by auto
  finally show ?thesis .
qed

lemma span_card_full:
  assumes "0 \<le> r" "nat r \<le> x" "x + nat r < w"
  shows "card ({n \<in> {..<w}. \<bar>int n - int x\<bar> \<le> r}) = 2 * nat r + 1"
proof -
  have "{n \<in> {..<w}. \<bar>int n - int x\<bar> \<le> r} = {x - nat r..x + nat r}"
    using assms by auto
  then show ?thesis using assms(2) by simp
qed

lemma window_card:
  "card (window w h r x y) =
     card ({n \<in> {..<w}. \<bar>int n - int x\<bar> \<le> r})
     * card ({n \<in> {..<h}. \<bar>int n - int y\<bar> \<le> r})"
  by (simp add: window_def card_cartesian_product)

text \<open>
  Claim C3, for the smoothing stage that has this design, \<^verbatim>\<open>FrameViewer.applyGaussianBlur\<close>:
  every colour channel of every output pixel is the (binary64) quotient, stored into an 8-bit
  channel, of the sum of that channel over the samples of the \<open>(2 r + 1) x (2 r + 1)\<close>
  square that lie inside the buffer and the count of those samples; alpha is copied. A
  pixel whose square is cut by the border is averaged over fewer samples than the
  \<open>(2 r + 1)\<^sup>2\<close> of a pixel whose square lies inside.
\<close>

theorem box_blur_excludes_outside:
  assumes "length d = 4 * w * h" "x < w" "y < h" "0 \<le> r"
  shows "(\<forall>c<3. FV_applyGaussianBlur d w h r ! ((y * w + x) * 4 + c) = excluding_average d w h r x y c)
       \<and> FV_applyGaussianBlur d w h r ! ((y * w + x) * 4 + 3) = d ! ((y * w + x) * 4 + 3)
       \<and> window w h r x y =
           {(nx, ny). nx < w \<and> ny < h \<and> \<bar>int nx - int x\<bar> \<le> r \<and> \<bar>int ny - int y\<bar> \<le> r}
       \<and> card (window w h r x y) \<le> (2 * nat r + 1) * (2 * nat r + 1)
       \<and> (nat r \<le> x \<and> x + nat r < w \<and> nat r \<le> y \<and> y + nat r < h \<longrightarrow>
            card (window w h r x y) = (2 * nat r + 1) * (2 * nat r + 1))
       \<and> (x < nat r \<or> w \<le> x + nat r \<or> y < nat r \<or> h \<le> y + nat r \<longrightarrow>
            card (window w h r x y) < (2 * nat r + 1) * (2 * nat r + 1))"
proof -
  let ?X = "card ({n \<in> {..<w}. \<bar>int n - int x\<bar> \<le> r})"
  let ?Y = "card ({n \<in> {..<h}. \<bar>int n - int y\<bar> \<le> r})"
  let ?R = "2 * nat r + 1"
  have X: "?X \<le> ?R" and Y: "?Y \<le> ?R"
    by (rule span_card_le [OF assms(4)])+
  have a: "\<forall>c<3. FV_applyGaussianBlur d w h r ! ((y * w + x) * 4 + c) = excluding_average d w h r x y c"
    using FV_blur_nth [OF assms(1,2,3)] by simp
  have b: "FV_applyGaussianBlur d w h r ! ((y * w + x) * 4 + 3) = d ! ((y * w + x) * 4 + 3)"
    using FV_blur_nth [OF assms(1,2,3), of 3] by simp
  have c: "card (window w h r x y) \<le> ?R * ?R"
    unfolding window_card by (rule mult_le_mono [OF X Y])
  have e: "card (window w h r x y) = ?R * ?R"
    if "nat r \<le> x \<and> x + nat r < w \<and> nat r \<le> y \<and> y + nat r < h"
    unfolding window_card using that span_card_full [OF assms(4)] by simp
  have f: "card (window w h r x y) < ?R * ?R"
    if "x < nat r \<or> w \<le> x + nat r \<or> y < nat r \<or> h \<le> y + nat r"
  proof -
    have "?X \<le> 2 * nat r \<or> ?Y \<le> 2 * nat r"
      using that span_card_edge [OF assms(4,2)] span_card_edge [OF assms(4,3)] by blast
    then have "?X * ?Y \<le> 2 * nat r * ?R"
    proof
      assume "?X \<le> 2 * nat r"
      then show ?thesis using Y by (rule mult_le_mono)
    next
      assume "?Y \<le> 2 * nat r"
      then have "?X * ?Y \<le> ?R * (2 * nat r)" using X by (intro mult_le_mono)
      then show ?thesis by (simp add: mult.commute)
    qed
    also have "\<dots> < ?R * ?R" by simp
    finally show ?thesis unfolding window_card .
  qed
  from a b c e f window_alt [of w h r x y] show ?thesis by blast
qed

text \<open>The theorem at the top-left pixel of the 3x3 step image, with radius 1.\<close>

theorem box_blur_excludes_outside_witness:
  "FV_applyGaussianBlur step3 3 3 1 ! 3 = 255
   \<and> FV_applyGaussianBlur step3 3 3 1 ! 0 = excluding_average step3 3 3 1 0 0 0
   \<and> card (window 3 3 1 0 0) < 9"
proof -
  have l: "length step3 = 4 * 3 * 3" by (simp add: step3_def)
  have a: "(0::nat) < 3" "(0::int) \<le> 1" by simp_all
  note t = box_blur_excludes_outside [OF l a(1) a(1) a(2)]
  from t have "FV_applyGaussianBlur step3 3 3 1 ! ((0 * 3 + 0) * 4 + 3) = step3 ! ((0 * 3 + 0) * 4 + 3)"
    by blast
  then have alpha: "FV_applyGaussianBlur step3 3 3 1 ! 3 = 255"
    by (simp add: step3_def)
  from t have "\<forall>c<3. FV_applyGaussianBlur step3 3 3 1 ! ((0 * 3 + 0) * 4 + c) = excluding_average step3 3 3 1 0 0 c"
    by blast
  from this [THEN spec, of 0]
  have red: "FV_applyGaussianBlur step3 3 3 1 ! 0 = excluding_average step3 3 3 1 0 0 0"
    by simp
  from t have "0 < nat 1 \<or> 3 \<le> 0 + nat 1 \<or> 0 < nat 1 \<or> 3 \<le> 0 + nat 1 \<longrightarrow>
      card (window 3 3 1 0 0) < (2 * nat 1 + 1) * (2 * nat 1 + 1)"
    by blast
  then have card: "card (window 3 3 1 0 0) < 9"
    by simp
  from alpha red card show ?thesis by blast
qed

section \<open>Smoothing with size 0\<close>

lemma window_zero:
  assumes "x < w" "y < h"
  shows "window w h 0 x y = {(x, y)}"
  using assms by (auto simp: window_alt)

lemma excluding_average_zero:
  assumes "x < w" "y < h"
  shows "excluding_average d w h 0 x y c = d ! ((y * w + x) * 4 + c)"
proof -
  let ?v = "unat (d ! ((y * w + x) * 4 + c))"
  have "?v < 2 ^ 53" using unat_byte_le [of "d ! ((y * w + x) * 4 + c)"] by simp
  then have "fl (real ?v) = real ?v" by (rule fl_nat)
  then have "excluding_average d w h 0 x y c = ToUint8Clamp (num_of_byte (d ! ((y * w + x) * 4 + c)))"
    by (simp add: excluding_average_def window_sum_def window_zero [OF assms] num_of_byte_def)
  then show ?thesis by simp
qed

lemma FV_blur_zero:
  assumes "length d = 4 * w * h"
  shows "FV_applyGaussianBlur d w h 0 = d"
proof (rule nth_equalityI)
  show "length (FV_applyGaussianBlur d w h 0) = length d" by simp
next
  fix i assume "i < length (FV_applyGaussianBlur d w h 0)"
  then have "i < 4 * w * h" using assms by simp
  then obtain x y c where xy: "x < w" "y < h" "c < 4" "i = (y * w + x) * 4 + c"
    by (rule channel_decompose)
  show "FV_applyGaussianBlur d w h 0 ! i = d ! i"
    using FV_blur_nth [OF assms xy(1,2,3), of 0] excluding_average_zero [OF xy(1,2), of d c]
    by (simp add: xy(4))
qed

lemma IP_blur_zero_fails:
  assumes "0 < w" "0 < h"
  shows "IP_blur_pixels d w h 0 = Inl TypeError"
proof -
  have k: "createGaussianKernel 0 s = []" for s
    by (simp add: createGaussianKernel_def)
  have g: "gauss_sums d w h [] 0 x y = Inl TypeError" for x y
    by (simp add: gauss_sums_def gauss_step_def kernel_at_def upto.simps)
  have ws: "[0..<w] = 0 # [1..<w]" "[0..<h] = 0 # [1..<h]"
    using assms by (simp_all add: upt_conv_Cons)
  show ?thesis
    by (simp add: IP_blur_pixels_def k ws IP_blur_write_def g)
qed

text \<open>
  Claim C6, on \<^verbatim>\<open>ImageProcessor.applyGaussianBlur\<close>: with size 0 the kernel has no row,
  and the first pixel's first weight lookup throws a \<^verbatim>\<open>TypeError\<close>, where
  \<^verbatim>\<open>FrameViewer.applyGaussianBlur\<close> returns the pixels as they were.
\<close>

theorem IP_blur_size_zero_throws:
  "snd (IP_applyGaussianBlur [[10, 20, 30, 255]] \<lparr>data = 0, width = 1, height = 1\<rparr> 0) = Inl TypeError
   \<and> FV_applyGaussianBlur [10, 20, 30, 255] 1 1 0 = [10, 20, 30, 255]"
proof -
  have "IP_blur_pixels [10, 20, 30, 255] 1 1 0 = Inl TypeError"
    by (rule IP_blur_zero_fails) simp_all
  then have a: "snd (IP_applyGaussianBlur [[10, 20, 30, 255]] \<lparr>data = 0, width = 1, height = 1\<rparr> 0)
      = Inl TypeError"
    by (simp add: IP_applyGaussianBlur_def new_ImageData_def alloc_def)
  have "length [10, 20, 30, 255 :: byte] = 4 * 1 * 1" by simp
  then have b: "FV_applyGaussianBlur [10, 20, 30, 255] 1 1 0 = [10, 20, 30, 255]"
    by (rule FV_blur_zero)
  from a b show ?thesis by blast
qed

text \<open>
  Claim C9: on the 3x3 step image (left column 0, the two columns right of it 255), also
  after the box blur with size 0, the convolution at the single interior pixel (1, 1) gives
  a nonzero \<open>gx\<close> (1020) and \<open>gy = 0\<close>, and the magnitude is \<open>\<bar>gx\<bar>\<close>.
\<close>

theorem step_edge_gradient:
  "convolve step3 3 1 1 = (1020, 0)
   \<and> convolve (FV_applyGaussianBlur step3 3 3 0) 3 1 1 = (1020, 0)
   \<and> fst (convolve step3 3 1 1) \<noteq> 0
   \<and> snd (convolve step3 3 1 1) = 0
   \<and> magnitude (convolve step3 3 1 1) = Fin (real_of_int \<bar>fst (convolve step3 3 1 1)\<bar>)"
proof -
  have "length step3 = 4 * 3 * 3" by (simp add: step3_def)
  then have "FV_applyGaussianBlur step3 3 3 0 = step3" by (rule FV_blur_zero)
  then show ?thesis
    by (simp add: convolve_Sobel Gx_step3 Gy_step3 magnitude_def sqrt_1040400 fl_1020)
qed

section \<open>What the pipeline accepts\<close>

lemma for_each_Inr:
  assumes "\<And>i s. i \<in> set xs \<Longrightarrow> \<exists>s'. body i s = Inr s'"
  shows "\<exists>s'. for_each xs body s = Inr s'"
  using assms
proof (induction xs arbitrary: s)
  case Nil
  then show ?case by simp
next
  case (Cons i xs)
  obtain s1 where "body i s = Inr s1" using Cons.prems by fastforce
  then show ?case using Cons by simp
qed

lemma for_each_length:
  assumes "\<And>i s s'. i \<in> set xs \<Longrightarrow> body i s = Inr s' \<Longrightarrow> length s' = length s"
    and "for_each xs body s = Inr s'"
  shows "length s' = length s"
  using assms
proof (induction xs arbitrary: s)
  case Nil
  then show ?case by simp
next
  case (Cons i xs)
  then show ?case
    by (cases "body i s") (fastforce)+
qed

lemma createGaussianKernel_length [simp]: "length (createGaussianKernel k s) = nat k"
  by (simp add: createGaussianKernel_def Let_def)

lemma gauss_step_ok:
  assumes "0 \<le> ky + radius" "nat (ky + radius) < length kern"
  shows "\<exists>s'. gauss_step d w h kern radius x y ky kx s = Inr s'"
  using assms by (cases s) (simp add: gauss_step_def kernel_at_def Let_def)

lemma gauss_sums_ok:
  assumes "k < 0 \<or> odd k"
  shows "\<exists>s. gauss_sums d w h (createGaussianKernel k sigma) (k div 2) x y = Inr s"
  unfolding gauss_sums_def
proof (intro for_each_Inr gauss_step_ok)
  fix ky :: int assume "ky \<in> set [- (k div 2)..k div 2]"
  then have ky: "- (k div 2) \<le> ky" "ky \<le> k div 2" by simp_all
  then show "0 \<le> ky + k div 2" by simp
  have pos: "0 < k" using ky assms by presburger
  have "ky + k div 2 < k" using ky assms pos by presburger
  then show "nat (ky + k div 2) < length (createGaussianKernel k sigma)"
    using pos by simp
qed

lemma IP_blur_write_ok:
  assumes "k < 0 \<or> odd k"
  shows "\<exists>out'. IP_blur_write d w h (createGaussianKernel k sigma) (k div 2) y x out = Inr out'
           \<and> length out' = length out"
proof -
  obtain s where "gauss_sums d w h (createGaussianKernel k sigma) (k div 2) x y = Inr s"
    using gauss_sums_ok [OF assms] by blast
  then show ?thesis
    by (cases s) (simp add: IP_blur_write_def Let_def)
qed

lemma IP_blur_write_length:
  assumes "IP_blur_write d w h kern radius y x out = Inr out'"
  shows "length out' = length out"
  using assms by (auto simp: IP_blur_write_def Let_def split: sum.splits prod.splits)

lemma IP_blur_pixels_ok:
  assumes "k < 0 \<or> odd k"
  shows "\<exists>out. IP_blur_pixels d w h k = Inr out \<and> length out = 4 * w * h"
proof -
  let ?K = "createGaussianKernel k (jdiv (Fin (of_int k)) (Fin 3))"
  let ?row = "\<lambda>y. for_each [0..<w] (\<lambda>x. IP_blur_write d w h ?K (k div 2) y x)"
  have row: "\<exists>out'. ?row y out = Inr out'" for y out
    by (rule for_each_Inr) (use IP_blur_write_ok [OF assms] in blast)
  have rowlen: "length out' = length out" if "?row y out = Inr out'" for y out out'
    by (rule for_each_length [OF _ that]) (rule IP_blur_write_length)
  obtain out where out: "for_each [0..<h] ?row (replicate (4 * w * h) 0) = Inr out"
    using for_each_Inr [of "[0..<h]" ?row] row by blast
  have "length out = length (replicate (4 * w * h) (0::byte))"
    by (rule for_each_length [OF _ out]) (use rowlen in blast)
  then show ?thesis
    using out by (simp add: IP_blur_pixels_def Let_def)
qed

lemma IP_applyGaussianBlur_ok:
  assumes "wf_image hp img" "k < 0 \<or> odd k"
  shows "\<exists>out. IP_applyGaussianBlur hp img k =
           (hp @ [out], Inr \<lparr>data = length hp, width = width img, height = height img\<rparr>)
           \<and> length out = 4 * width img * height img"
proof -
  obtain out where "IP_blur_pixels (hp ! data img) (width img) (height img) k = Inr out"
    "length out = 4 * width img * height img"
    using IP_blur_pixels_ok [OF assms(2)] by blast
  then show ?thesis
    using assms(1)
    by (simp add: IP_applyGaussianBlur_def wf_image_def new_ImageData_Inr nth_append)
qed

lemma IP_applySobelEdgeDetection_ok:
  assumes "0 < width img" "0 < height img"
  shows "snd (IP_applySobelEdgeDetection hp img lo hi) =
           Inr \<lparr>data = length hp, width = width img, height = height img\<rparr>"
  using assms by (simp add: IP_applySobelEdgeDetection_def new_ImageData_Inr)

lemma wf_image_gray:
  assumes "wf_image hp img"
  shows "wf_image (hp[data img := gray_loop 0 (hp ! data img)]) img"
  using assms by (simp add: wf_image_def)


lemma IP_processImage_ok:
  assumes "wf_image hp img" "\<not> edgeDetection opts \<or> blurSize opts < 0 \<or> odd (blurSize opts)"
  shows "snd (IP_processImage hp img opts) =
           Inr (if edgeDetection opts
                then \<lparr>data = length hp + 1, width = width img, height = height img\<rparr>
                else img)"
proof (cases "edgeDetection opts")
  case False
  then show ?thesis
    by (simp add: IP_processImage_def IP_convertToGrayscale_def)
next
  case True
  let ?hp1 = "hp[data img := gray_loop 0 (hp ! data img)]"
  have k: "blurSize opts < 0 \<or> odd (blurSize opts)" using assms(2) True by simp
  obtain out where b: "IP_applyGaussianBlur ?hp1 img (blurSize opts) =
      (?hp1 @ [out], Inr \<lparr>data = length ?hp1, width = width img, height = height img\<rparr>)"
    using IP_applyGaussianBlur_ok [OF wf_image_gray [OF assms(1)] k] by blast
  have dims: "0 < width img" "0 < height img" using assms(1) by (simp_all add: wf_image_def)
  show ?thesis
    using True b dims
      IP_applySobelEdgeDetection_ok [of "\<lparr>data = length ?hp1, width = width img, height = height img\<rparr>"
        "?hp1 @ [out]" "threshold1 opts" "threshold2 opts"]
    by (simp add: IP_processImage_def IP_convertToGrayscale_def)
qed

text \<open>
  Claim C2, as the code has it: the pipeline validates nothing before its stages. A buffer
  with a zero dimension cannot be built; the order of the thresholds and the sign of the
  blur size are never looked at. On a well-formed buffer, for every pair of thresholds and
  every blur size that is negative or odd, \<^verbatim>\<open>ImageProcessor.processImage\<close> runs its enabled
  stages and returns an image of the same dimensions: its argument when edge detection is
  off, the new Sobel output otherwise.
\<close>

theorem no_validation_before_stages:
  assumes "wf_image hp img" "\<not> edgeDetection opts \<or> blurSize opts < 0 \<or> odd (blurSize opts)"
  shows "snd (IP_processImage hp img (opts\<lparr>threshold1 := lo, threshold2 := hi\<rparr>)) =
           Inr (if edgeDetection opts
                then \<lparr>data = length hp + 1, width = width img, height = height img\<rparr>
                else img)"
  using IP_processImage_ok [OF assms(1), of "opts\<lparr>threshold1 := lo, threshold2 := hi\<rparr>"] assms(2)
  by simp

theorem no_validation_before_stages_witness:
  "snd (IP_processImage [[255, 0, 0, 255]] \<lparr>data = 0, width = 1, height = 1\<rparr>
         \<lparr>grayscale = False, edgeDetection = True,
          threshold1 = Fin 150, threshold2 = Fin 50, blurSize = - 1\<rparr>)
   = Inr \<lparr>data = 2, width = 1, height = 1\<rparr>"
proof -
  have wf: "wf_image [[255, 0, 0, 255]] \<lparr>data = 0, width = 1, height = 1\<rparr>"
    by (simp add: wf_image_def)
  show ?thesis
    using no_validation_before_stages [OF wf,
        where opts = "\<lparr>grayscale = False, edgeDetection = True,
             threshold1 = Fin 50, threshold2 = Fin 150, blurSize = - 1\<rparr>"
          and lo = "Fin 150" and hi = "Fin 50"]
    by simp
qed

text \<open>
  Claim C2 as stated fails: with \<open>lowThreshold = 150 > highThreshold = 50\<close> and the
  negative blur size \<open>-1\<close>, \<^verbatim>\<open>processImage\<close> reports no error; it runs grayscale, smoothing
  and Sobel and returns the Sobel output, a new 1x1 image.
\<close>

theorem inverted_config_is_processed:
  "snd (IP_processImage [[255, 0, 0, 255]] \<lparr>data = 0, width = 1, height = 1\<rparr>
         \<lparr>grayscale = False, edgeDetection = True,
          threshold1 = Fin 150, threshold2 = Fin 50, blurSize = - 1\<rparr>)
   = Inr \<lparr>data = 2, width = 1, height = 1\<rparr>
   \<and> fst (IP_processImage [[255, 0, 0, 255]] \<lparr>data = 0, width = 1, height = 1\<rparr>
         \<lparr>grayscale = False, edgeDetection = True,
          threshold1 = Fin 150, threshold2 = Fin 50, blurSize = - 1\<rparr>) ! 0 = [76, 76, 76, 255]"
proof -
  have wf: "wf_image [[255, 0, 0, 255]] \<lparr>data = 0, width = 1, height = 1\<rparr>"
    by (simp add: wf_image_def)
  have l: "0 < length [[255, 0, 0, 255 :: byte]]" by simp
  show ?thesis
    using IP_processImage_ok [OF wf,
        of "\<lparr>grayscale = False, edgeDetection = True,
             threshold1 = Fin 150, threshold2 = Fin 50, blurSize = - 1\<rparr>"]
      IP_processImage_frame [OF l, of "\<lparr>data = 0, width = 1, height = 1\<rparr>"
        "\<lparr>grayscale = False, edgeDetection = True,
             threshold1 = Fin 150, threshold2 = Fin 50, blurSize = - 1\<rparr>"]
    by (simp add: gray_loop_red)
qed

section \<open>Rounding twice\<close>

lemma fl_zero [simp]: "fl 0 = 0"
  by (simp add: fl_def)

lemma pow2_neq0 [simp]: "pow2 e \<noteq> 0"
  using pow2_pos [of e] by linarith

lemma pow2_nonneg [simp]: "0 \<le> pow2 e"
  using pow2_pos [of e] by linarith

lemma pow2_mono: "a \<le> b \<Longrightarrow> pow2 a \<le> pow2 b"
  by (simp add: pow2_powi power_int_increasing)

lemma expo_unique:
  assumes "0 < z" "pow2 k \<le> z" "z < pow2 (k + 1)"
  shows "expo z = k"
proof (rule ccontr)
  assume ne: "expo z \<noteq> k"
  note b = expo_bounds [OF assms(1)]
  show False
  proof (cases "expo z < k")
    case True
    then have "pow2 (expo z + 1) \<le> pow2 k" by (intro pow2_mono) simp
    then show False using b(2) assms(2) by linarith
  next
    case False
    then have "k + 1 \<le> expo z" using ne by simp
    then have "pow2 (k + 1) \<le> pow2 (expo z)" by (rule pow2_mono)
    then show False using b(1) assms(3) by linarith
  qed
qed

lemma roundHalfEven_ge:
  assumes "of_int n \<le> y"
  shows "n \<le> roundHalfEven y"
proof -
  have "real_of_int n - 1 / 2 \<le> of_int (roundHalfEven y)"
    using roundHalfEven_error [of y] assms by linarith
  then have "real_of_int n < of_int (roundHalfEven y) + 1" by linarith
  then have "n < roundHalfEven y + 1" by linarith
  then show ?thesis by simp
qed

lemma roundHalfEven_le:
  assumes "y \<le> of_int n"
  shows "roundHalfEven y \<le> n"
proof -
  have "of_int (roundHalfEven y) \<le> real_of_int n + 1 / 2"
    using roundHalfEven_error [of y] assms by linarith
  then have "real_of_int (roundHalfEven y) < of_int n + 1" by linarith
  then have "roundHalfEven y < n + 1" by linarith
  then show ?thesis by simp
qed

lemma pow2_52: "pow2 e = 2 ^ 52 * pow2 (e - 52)"
proof -
  have "pow2 e = pow2 (52 + (e - 52))" by (rule arg_cong [where f = pow2]) linarith
  also have "\<dots> = pow2 52 * pow2 (e - 52)" by (rule pow2_add)
  also have "pow2 52 = 2 ^ 52" by (simp add: pow2_def)
  finally show ?thesis .
qed

lemma pow2_53: "pow2 (e + 1) = 2 ^ 53 * pow2 (e - 52)"
proof -
  have "pow2 (e + 1) = pow2 (53 + (e - 52))" by (rule arg_cong [where f = pow2]) linarith
  also have "\<dots> = pow2 53 * pow2 (e - 52)" by (rule pow2_add)
  also have "pow2 53 = 2 ^ 53" by (simp add: pow2_def)
  finally show ?thesis .
qed

lemma pow2_double: "pow2 (e + 1) = 2 * pow2 e"
proof -
  have "pow2 (e + 1) = pow2 (1 + e)" by (rule arg_cong [where f = pow2]) linarith
  also have "\<dots> = pow2 1 * pow2 e" by (rule pow2_add)
  also have "pow2 1 = 2" by (simp add: pow2_def)
  finally show ?thesis .
qed

lemma fl_representable:
  assumes "2 ^ 52 \<le> \<bar>m\<bar>" "\<bar>m\<bar> \<le> 2 ^ 53"
  shows "fl (of_int m * pow2 (e - 52)) = of_int m * pow2 (e - 52)"
proof -
  let ?p = "pow2 (e - 52)"
  let ?y = "of_int m * ?p"
  have p: "0 < ?p" by simp
  have m0: "m \<noteq> 0" using assms(1) by auto
  have ay: "\<bar>?y\<bar> = of_int \<bar>m\<bar> * ?p" using p by (simp add: abs_mult abs_of_pos)
  have lo: "(2::real) ^ 52 \<le> of_int \<bar>m\<bar>" and hi: "of_int \<bar>m\<bar> \<le> (2::real) ^ 53"
    using assms by (simp_all add: pow2_le_real of_int_le_numeral_power_cancel_iff)
  have y0: "?y \<noteq> 0" using m0 p by simp
  show ?thesis
  proof (cases "\<bar>m\<bar> = 2 ^ 53")
    case False
    then have "\<bar>m\<bar> < 2 ^ 53" using assms(2) by simp
    then have hi': "of_int \<bar>m\<bar> + 1 \<le> (2::real) ^ 53" by (rule less_pow2_real)
    have "pow2 e \<le> \<bar>?y\<bar>"
      unfolding ay pow2_52 [of e] using lo p by (intro mult_right_mono) simp_all
    moreover have "\<bar>?y\<bar> < pow2 (e + 1)"
      unfolding ay pow2_53 [of e] using hi' p by (intro mult_strict_right_mono) simp_all
    ultimately have "expo \<bar>?y\<bar> = e"
      using y0 by (intro expo_unique) simp_all
    then show ?thesis
      using y0 p by (simp add: fl_def Let_def)
  next
    case True
    have "m = 2 ^ 53 \<or> m = - (2 ^ 53)" using True by (simp add: abs_if split: if_splits)
    then have "even m" by auto
    then have m2: "m = 2 * (m div 2)" by simp
    have "\<bar>?y\<bar> = pow2 (e + 1)"
      unfolding ay pow2_53 [of e] using True by simp
    then have "expo \<bar>?y\<bar> = e + 1"
      using y0 pow2_double [of "e + 1"] pow2_pos [of "e + 1"]
      by (intro expo_unique) simp_all
    moreover have "pow2 (e + 1 - 52) = 2 * ?p"
      using pow2_double [of "e - 52"] by (simp add: algebra_simps)
    moreover have "?y / (2 * ?p) = of_int (m div 2)"
      using p m2 by (simp add: field_simps)
    ultimately have "fl ?y = of_int (m div 2) * (2 * ?p)"
      using y0 by (simp add: fl_def Let_def del: of_int_mult)
    also have "\<dots> = of_int (2 * (m div 2)) * ?p" by simp
    finally show ?thesis using m2 by simp
  qed
qed

lemma fl_idem [simp]: "fl (fl x) = fl x"
proof (cases "x = 0")
  case True
  then show ?thesis by simp
next
  case False
  let ?e = "expo \<bar>x\<bar>"
  let ?p = "pow2 (?e - 52)"
  let ?z = "x / ?p"
  let ?m = "roundHalfEven ?z"
  have p: "0 < ?p" by simp
  have ax: "0 < \<bar>x\<bar>" using False by simp
  have fl: "fl x = of_int ?m * ?p" using False by (simp add: fl_def Let_def)
  have "2 ^ 52 * ?p \<le> \<bar>x\<bar>" "\<bar>x\<bar> < 2 ^ 53 * ?p"
    using expo_bounds [OF ax] by (simp_all add: pow2_52 [of ?e] pow2_53 [of ?e])
  then have z: "2 ^ 52 \<le> \<bar>?z\<bar>" "\<bar>?z\<bar> \<le> 2 ^ 53"
    using p by (simp_all add: abs_divide field_simps)
  have "2 ^ 52 \<le> \<bar>?m\<bar> \<and> \<bar>?m\<bar> \<le> 2 ^ 53"
  proof (cases "0 \<le> ?z")
    case True
    then have "of_int (2 ^ 52) \<le> ?z" "?z \<le> of_int (2 ^ 53)" using z by simp_all
    then have "2 ^ 52 \<le> ?m" "?m \<le> 2 ^ 53"
      using roundHalfEven_ge [of "2 ^ 52" ?z] roundHalfEven_le [of ?z "2 ^ 53"] by blast+
    then show ?thesis by simp
  next
    case False
    then have "?z \<le> of_int (- (2 ^ 52))" "of_int (- (2 ^ 53)) \<le> ?z" using z by simp_all
    then have "?m \<le> - (2 ^ 52)" "- (2 ^ 53) \<le> ?m"
      using roundHalfEven_le [of ?z "- (2 ^ 52)"] roundHalfEven_ge [of "- (2 ^ 53)" ?z] by blast+
    then show ?thesis by simp
  qed
  then show ?thesis
    unfolding fl by (intro fl_representable) simp_all
qed

section \<open>The copy-back loop of FrameViewer\<close>

lemma copy_loop_keep:
  assumes "j < i"
  shows "copy_loop edges i d ! j = d ! j"
  using assms
proof (induction edges i d rule: copy_loop.induct)
  case (1 edges i d)
  show ?case
  proof (cases "i < length d")
    case False
    then show ?thesis by (subst copy_loop.simps) simp
  next
    case True
    have "copy_loop edges i d ! j
        = d[i + 2 := edges ! (i div 4), i + 1 := edges ! (i div 4), i := edges ! (i div 4),
            i + 3 := 255] ! j"
      using "1.IH" [OF True refl] "1.prems" True
      by (subst copy_loop.simps) (simp add: Let_def)
    then show ?thesis using "1.prems" by simp
  qed
qed

lemma copy_loop_nth:
  assumes "4 dvd i" "4 dvd length d" "i \<le> j" "j < length d"
  shows "copy_loop edges i d ! j = (if j mod 4 = 3 then 255 else edges ! (j div 4))"
  using assms
proof (induction edges i d rule: copy_loop.induct)
  case (1 edges i d)
  have True: "i < length d" using "1.prems" by linarith
  define e where "e = edges ! (i div 4)"
  define d' where "d' = d[i + 2 := e, i + 1 := e, i := e, i + 3 := 255]"
  have step: "copy_loop edges i d = copy_loop edges (i + 4) d'"
    using True by (subst copy_loop.simps) (simp add: e_def d'_def Let_def)
  have len: "length d' = length d" by (simp add: d'_def)
  have i3: "i + 3 < length d"
    using True "1.prems"(1,2) by (elim dvdE) auto
  show ?case
  proof (cases "j < i + 4")
    case False
    then have "copy_loop edges (i + 4) d' ! j = (if j mod 4 = 3 then 255 else edges ! (j div 4))"
      using "1.IH" [OF True e_def] "1.prems" len by (simp add: d'_def)
    then show ?thesis by (simp only: step)
  next
    case near: True
    have keep: "copy_loop edges i d ! j = d' ! j"
      unfolding step using near by (rule copy_loop_keep)
    have upd: "d' ! i = e" "d' ! (i + 1) = e" "d' ! (i + 2) = e" "d' ! (i + 3) = 255"
      using i3 by (simp_all add: d'_def)
    consider "j = i" | "j = i + 1" | "j = i + 2" | "j = i + 3"
      using near "1.prems"(3) by linarith
    then show ?thesis
    proof cases
      case 1
      then have "j mod 4 = 0" "j div 4 = i div 4" "d' ! j = e"
        using "1.prems"(1) upd by (presburger, presburger, simp)
      then show ?thesis unfolding keep by (simp add: e_def)
    next
      case 2
      then have "j mod 4 = 1" "j div 4 = i div 4" "d' ! j = e"
        using "1.prems"(1) upd by (presburger, presburger, simp)
      then show ?thesis unfolding keep by (simp add: e_def)
    next
      case 3
      then have "j mod 4 = 2" "j div 4 = i div 4" "d' ! j = e"
        using "1.prems"(1) upd by (presburger, presburger, simp)
      then show ?thesis unfolding keep by (simp add: e_def)
    next
      case 4
      then have "j mod 4 = 3" "d' ! j = 255"
        using "1.prems"(1) upd by (presburger, simp)
      then show ?thesis unfolding keep by simp
    qed
  qed
qed

lemma doubleThreshold_levels:
  "doubleThreshold (Fin m) (Fin lo) (Fin hi) =
     (if hi < m then 255 else if lo < m then 128 else 0)"
  by (simp add: doubleThreshold_def)

lemma FV_processImage_levels:
  assumes "edgeDetection (options this)" "data img < length hp"
    and "length (hp ! data img) = 4 * width img * height img"
    and "j < 4 * width img * height img"
  shows "FV_processImage this hp img ! data img ! j =
           (if j mod 4 = 3 then 255
            else FV_applySobel
                   (FV_applyGaussianBlur (gray_loop 0 (hp ! data img)) (width img) (height img)
                      (blurSize (processingOptions this)))
                   (width img) (height img) (threshold1 (processingOptions this))
                   (threshold2 (processingOptions this)) ! (j div 4))"
proof -
  let ?b = "FV_applyGaussianBlur (gray_loop 0 (hp ! data img)) (width img) (height img)
              (blurSize (processingOptions this))"
  have len: "length ?b = 4 * width img * height img"
    using assms(3) by simp
  have "4 dvd length ?b" unfolding len by simp
  then have "copy_loop edges 0 ?b ! j = (if j mod 4 = 3 then 255 else edges ! (j div 4))" for edges
    using assms(4) len by (intro copy_loop_nth) simp_all
  then show ?thesis
    using assms(1,2) by (simp add: FV_processImage_def Let_def)
qed

text \<open>
  Claim C4, on \<^verbatim>\<open>ImageProcessor.applySobelEdgeDetection\<close>: the loop that sets alpha to
  255 visits interior pixels only, so the alpha channel of a border pixel of its output
  keeps the 0 of the fresh \<^verbatim>\<open>ImageData\<close>. Here the 3x3 step image with thresholds 50 and
  150: alpha is 0 at the border pixel (0, 0) and 255 at the interior pixel (1, 1), while
  \<^verbatim>\<open>FrameViewer.processImage\<close> with its default options gives alpha 255 at pixel (0, 0).
\<close>

theorem IP_border_alpha_transparent:
  "IP_sobel_pixels step3 3 3 (Fin 50) (Fin 150) ! 3 = 0
   \<and> IP_sobel_pixels step3 3 3 (Fin 50) (Fin 150) ! 19 = 255
   \<and> FV_processImage
         \<lparr>currentImage = None, originalImageData = None,
          options = \<lparr>grayscale = False, edgeDetection = True\<rparr>,
          processingOptions = \<lparr>grayscale = False, edgeDetection = True,
             threshold1 = Fin 50, threshold2 = Fin 150, blurSize = 5\<rparr>,
          isProcessing = False, canvas = []\<rparr>
         [step3] \<lparr>data = 0, width = 3, height = 3\<rparr> ! 0 ! 3 = 255"
proof -
  let ?V = "\<lparr>currentImage = None, originalImageData = None,
          options = \<lparr>grayscale = False, edgeDetection = True\<rparr>,
          processingOptions = \<lparr>grayscale = False, edgeDetection = True,
             threshold1 = Fin 50, threshold2 = Fin 150, blurSize = 5\<rparr>,
          isProcessing = False, canvas = []\<rparr>"
  let ?img = "\<lparr>data = 0, width = 3, height = 3\<rparr>"
  have a: "IP_sobel_pixels step3 3 3 (Fin 50) (Fin 150) ! 3 = 0"
    using IP_applySobel_nth [of 0 3 0 3 3 step3 "Fin 50" "Fin 150"]
    by (simp add: interior_def)
  have b: "IP_sobel_pixels step3 3 3 (Fin 50) (Fin 150) ! 19 = 255"
    using IP_applySobel_nth [of 1 3 1 3 3 step3 "Fin 50" "Fin 150"]
    by (simp add: interior_def)
  have "FV_processImage ?V [step3] ?img ! data ?img ! 3 =
          (if (3 :: nat) mod 4 = 3 then 255
            else FV_applySobel
                   (FV_applyGaussianBlur (gray_loop 0 ([step3] ! data ?img)) (width ?img) (height ?img)
                      (blurSize (processingOptions ?V)))
                   (width ?img) (height ?img) (threshold1 (processingOptions ?V))
                   (threshold2 (processingOptions ?V)) ! (3 div 4))"
    by (rule FV_processImage_levels) (simp_all add: step3_def)
  then have c: "FV_processImage ?V [step3] ?img ! 0 ! 3 = 255" by simp
  from a b c show ?thesis by blast
qed

section \<open>The Gaussian blur on every image\<close>

lemma for_each_fold:
  assumes "\<And>i s. i \<in> set xs \<Longrightarrow> body i s = Inr (f i s)"
  shows "for_each xs body s = Inr (fold f xs s)"
  using assms by (induction xs arbitrary: s) simp_all

lemma fold_quad:
  "fold (\<lambda>i (a, b, c, e). (A i a, B i b, C i c, E i e)) xs (a, b, c, e) =
     (fold A xs a, fold B xs b, fold C xs c, fold E xs e)"
  by (induction xs arbitrary: a b c e) simp_all

lemma upto_shift:
  assumes "0 \<le> r"
  shows "[- r..r] = map (\<lambda>i. int i - r) [0..<nat (2 * r + 1)]"
proof (rule nth_equalityI)
  show "length [- r..r] = length (map (\<lambda>i. int i - r) [0..<nat (2 * r + 1)])"
    using assms by simp
  fix i assume "i < length [- r..r]"
  then have "i < nat (2 * r + 1)" using assms by simp
  then show "[- r..r] ! i = map (\<lambda>i. int i - r) [0..<nat (2 * r + 1)] ! i"
    using assms by (simp add: nth_upto)
qed

lemma fold_nth: "fold (\<lambda>i. f (xs ! i)) [0..<length xs] = fold f xs"
proof -
  have "fold f (map ((!) xs) [0..<length xs]) = fold (f \<circ> (!) xs) [0..<length xs]"
    by (rule fold_map)
  then show ?thesis by (simp add: map_nth comp_def)
qed

lemma weight_sum_offsets:
  assumes "0 \<le> r" "length kern = nat (2 * r + 1)" "\<forall>row \<in> set kern. length row = nat (2 * r + 1)"
  shows "fold (\<lambda>ky. fold (\<lambda>kx s. jadd s (kern ! nat (ky + r) ! nat (kx + r))) [- r..r]) [- r..r] (Fin 0)
           = weight_sum kern"
proof -
  let ?n = "nat (2 * r + 1)"
  have row: "fold (\<lambda>kx s. jadd s (kern ! i ! nat (kx + r))) [- r..r] = fold (\<lambda>weight s. jadd s weight) (kern ! i)"
    if "i < ?n" for i
  proof -
    have len: "length (kern ! i) = ?n" using that assms(2,3) by simp
    have "fold (\<lambda>kx s. jadd s (kern ! i ! nat (kx + r))) [- r..r]
        = fold (\<lambda>j s. jadd s (kern ! i ! j)) [0..<?n]"
      by (simp add: upto_shift [OF assms(1)] fold_map comp_def)
    also have "\<dots> = fold (\<lambda>weight s. jadd s weight) (kern ! i)"
      using fold_nth [of "\<lambda>weight s. jadd s weight" "kern ! i"] by (simp add: len)
    finally show ?thesis .
  qed
  have "fold (\<lambda>ky. fold (\<lambda>kx s. jadd s (kern ! nat (ky + r) ! nat (kx + r))) [- r..r]) [- r..r]
         (Fin 0)
      = fold (\<lambda>i. fold (\<lambda>kx s. jadd s (kern ! i ! nat (kx + r))) [- r..r]) [0..<?n] (Fin 0)"
    by (simp add: upto_shift [OF assms(1), of] fold_map comp_def)
  also have "\<dots> = fold (\<lambda>i. fold (\<lambda>weight s. jadd s weight) (kern ! i)) [0..<?n] (Fin 0)"
    by (rule fold_cong) (simp_all add: row)
  also have "\<dots> = fold (\<lambda>row. fold (\<lambda>weight s. jadd s weight) row) kern (Fin 0)"
    using fold_nth [of "\<lambda>row. fold (\<lambda>weight s. jadd s weight) row" kern] by (simp add: assms(2))
  finally show ?thesis by (simp add: weight_sum_def)
qed

lemma createGaussianKernel_rows:
  "\<forall>row \<in> set (createGaussianKernel k s). length row = nat k"
  by (auto simp: createGaussianKernel_def Let_def)

lemma kernel_at_ok:
  assumes "length kern = n" "\<forall>row \<in> set kern. length row = n"
    and "0 \<le> i" "i < int n" "0 \<le> j" "j < int n"
  shows "kernel_at kern i j = Inr (kern ! nat i ! nat j)"
proof -
  have i: "nat i < length kern" using assms(1,3,4) by simp
  then have "length (kern ! nat i) = n" using assms(2) by simp
  then have "nat j < length (kern ! nat i)" using assms(5,6) by simp
  with i assms(3,5) show ?thesis by (simp add: kernel_at_def)
qed

lemma clamped_index:
  assumes "x < w" "y < h"
  shows "nat (min (max (int y + ky) 0) (int h - 1) * int w + min (max (int x + kx) 0) (int w - 1))
           = clamp_coord h (int y + ky) * w + clamp_coord w (int x + kx)"
proof -
  have "0 \<le> min (max (int y + ky) 0) (int h - 1)" "0 \<le> min (max (int x + kx) 0) (int w - 1)"
    using assms by simp_all
  then show ?thesis
    by (simp add: clamp_coord_def nat_add_distrib nat_mult_distrib)
qed

lemma gauss_step_clamped:
  assumes "length kern = nat (2 * r + 1)" "\<forall>row \<in> set kern. length row = nat (2 * r + 1)"
    and "ky \<in> set [- r..r]" "kx \<in> set [- r..r]" "x < w" "y < h"
  shows "gauss_step d w h kern r x y ky kx s =
     Inr ((\<lambda>(s0, s1, s2, weightSum).
        (jadd s0 (jmul (num_of_byte
                   (d ! ((clamp_coord h (int y + ky) * w + clamp_coord w (int x + kx)) * 4 + 0)))
                 (kern ! nat (ky + r) ! nat (kx + r))),
         jadd s1 (jmul (num_of_byte
                   (d ! ((clamp_coord h (int y + ky) * w + clamp_coord w (int x + kx)) * 4 + 1)))
                 (kern ! nat (ky + r) ! nat (kx + r))),
         jadd s2 (jmul (num_of_byte
                   (d ! ((clamp_coord h (int y + ky) * w + clamp_coord w (int x + kx)) * 4 + 2)))
                 (kern ! nat (ky + r) ! nat (kx + r))),
         jadd weightSum (kern ! nat (ky + r) ! nat (kx + r)))) s)"
proof -
  have "0 \<le> ky + r" "ky + r < int (nat (2 * r + 1))" "0 \<le> kx + r" "kx + r < int (nat (2 * r + 1))"
    using assms(3,4) by simp_all
  then have "kernel_at kern (ky + r) (kx + r) = Inr (kern ! nat (ky + r) ! nat (kx + r))"
    by (intro kernel_at_ok [OF assms(1,2)])
  then show ?thesis
    by (cases s) (simp add: gauss_step_def Let_def clamped_index [OF assms(5,6)])
qed

lemma gauss_sums_clamped:
  assumes "0 \<le> r" "length kern = nat (2 * r + 1)" "\<forall>row \<in> set kern. length row = nat (2 * r + 1)"
    and "x < w" "y < h"
  shows "gauss_sums d w h kern r x y =
           Inr (clamped_sum d w h kern r x y 0, clamped_sum d w h kern r x y 1,
                clamped_sum d w h kern r x y 2, weight_sum kern)"
proof -
  let ?S = "\<lambda>c ky kx s. jadd s (jmul (num_of_byte
                (d ! ((clamp_coord h (int y + ky) * w + clamp_coord w (int x + kx)) * 4 + c)))
              (kern ! nat (ky + r) ! nat (kx + r)))"
  let ?E = "\<lambda>ky kx s. jadd s (kern ! nat (ky + r) ! nat (kx + r))"
  let ?G = "\<lambda>ky kx (s0, s1, s2, e). (?S 0 ky kx s0, ?S 1 ky kx s1, ?S 2 ky kx s2, ?E ky kx e)"
  let ?H = "\<lambda>ky (s0, s1, s2, e). (fold (?S 0 ky) [- r..r] s0, fold (?S 1 ky) [- r..r] s1,
                                   fold (?S 2 ky) [- r..r] s2, fold (?E ky) [- r..r] e)"
  have inner: "for_each [- r..r] (gauss_step d w h kern r x y ky) s = Inr (?H ky s)"
    if "ky \<in> set [- r..r]" for ky s
  proof -
    have "for_each [- r..r] (gauss_step d w h kern r x y ky) s = Inr (fold (?G ky) [- r..r] s)"
      by (rule for_each_fold) (rule gauss_step_clamped [OF assms(2,3) that _ assms(4,5)])
    moreover have "fold (?G ky) [- r..r] s = ?H ky s"
      by (cases s) (simp add: fold_quad)
    ultimately show ?thesis by simp
  qed
  have "gauss_sums d w h kern r x y = Inr (fold ?H [- r..r] (Fin 0, Fin 0, Fin 0, Fin 0))"
    unfolding gauss_sums_def by (rule for_each_fold) (rule inner)
  also have "fold ?H [- r..r] (Fin 0, Fin 0, Fin 0, Fin 0) =
      (fold (\<lambda>ky. fold (?S 0 ky) [- r..r]) [- r..r] (Fin 0),
       fold (\<lambda>ky. fold (?S 1 ky) [- r..r]) [- r..r] (Fin 0),
       fold (\<lambda>ky. fold (?S 2 ky) [- r..r]) [- r..r] (Fin 0),
       fold (\<lambda>ky. fold (?E ky) [- r..r]) [- r..r] (Fin 0))"
    by (rule fold_quad)
  finally show ?thesis
    by (simp add: clamped_sum_def weight_sum_offsets [OF assms(1,2,3)])
qed

lemma four_write_nth:
  fixes a b c :: nat
  assumes "c < 4" "b * 4 + c < length out"
  shows "out[a * 4 := v0, a * 4 + 1 := v1, a * 4 + 2 := v2, a * 4 + 3 := v3] ! (b * 4 + c) =
           (if a = b then [v0, v1, v2, v3] ! c else out ! (b * 4 + c))"
proof -
  consider "c = 0" | "c = 1" | "c = 2" | "c = 3" using assms(1) by linarith
  then show ?thesis
    using assms(2) by cases (auto simp: nth_list_update)
qed

lemma IP_blur_write_clamped:
  assumes "0 \<le> r" "length kern = nat (2 * r + 1)" "\<forall>row \<in> set kern. length row = nat (2 * r + 1)"
    and "x < w" "y < h"
  shows "IP_blur_write d w h kern r y x out =
           Inr (out[(y * w + x) * 4 := clamping_average d w h kern r x y 0,
                    (y * w + x) * 4 + 1 := clamping_average d w h kern r x y 1,
                    (y * w + x) * 4 + 2 := clamping_average d w h kern r x y 2,
                    (y * w + x) * 4 + 3 := d ! ((y * w + x) * 4 + 3)])"
  by (simp add: IP_blur_write_def gauss_sums_clamped [OF assms] clamping_average_def Let_def
      del: ToUint8Clamp.simps)

text \<open>
  \<^verbatim>\<open>ImageProcessor.applyGaussianBlur\<close> with an odd positive \<open>kernelSize\<close>: every lookup in
  the kernel succeeds, and every colour channel of every output pixel is the sum over all
  \<open>kernelSize\<^sup>2\<close> offsets, with coordinates clamped to the image, divided by the sum of all
  weights of the kernel; alpha is copied.
\<close>

lemma IP_blur_nth:
  assumes "odd k" "0 < k" "x < w" "y < h" "c < 4"
  shows "\<exists>out. IP_blur_pixels d w h k = Inr out \<and> length out = 4 * w * h
           \<and> out ! ((y * w + x) * 4 + c) =
               (if c < 3
                then clamping_average d w h (createGaussianKernel k (jdiv (Fin (of_int k)) (Fin 3)))
                       (k div 2) x y c
                else d ! ((y * w + x) * 4 + c))"
proof -
  let ?K = "createGaussianKernel k (jdiv (Fin (of_int k)) (Fin 3))"
  let ?r = "k div 2"
  let ?A = "\<lambda>x' y' c. clamping_average d w h ?K ?r x' y' c"
  let ?W = "\<lambda>y' x' (out :: byte list).
              out[(y' * w + x') * 4 := ?A x' y' 0, (y' * w + x') * 4 + 1 := ?A x' y' 1,
                  (y' * w + x') * 4 + 2 := ?A x' y' 2,
                  (y' * w + x') * 4 + 3 := d ! ((y' * w + x') * 4 + 3)]"
  let ?i = "(y * w + x) * 4 + c"
  let ?z = "replicate (4 * w * h) (0 :: byte)"
  have "k = 2 * ?r + 1" using assms(1) by presburger
  then have r: "0 \<le> ?r" "nat k = nat (2 * ?r + 1)" using assms(2) by simp_all
  have len: "length ?K = nat (2 * ?r + 1)" using r(2) by simp
  have rows: "\<forall>row \<in> set ?K. length row = nat (2 * ?r + 1)"
    using createGaussianKernel_rows [of k] r(2) by simp
  have wr: "IP_blur_write d w h ?K ?r y' x' out = Inr (?W y' x' out)"
    if "y' \<in> set [0..<h]" "x' \<in> set [0..<w]" for y' x' out
    using that by (intro IP_blur_write_clamped [OF r(1) len rows]) simp_all
  have row: "for_each [0..<w] (IP_blur_write d w h ?K ?r y') out = Inr (fold (?W y') [0..<w] out)"
    if "y' \<in> set [0..<h]" for y' out
    by (rule for_each_fold) (rule wr [OF that])
  have all: "IP_blur_pixels d w h k = Inr (fold (\<lambda>y'. fold (?W y') [0..<w]) [0..<h] ?z)"
    unfolding IP_blur_pixels_def Let_def by (rule for_each_fold) (rule row)
  have i: "?i < length ?z"
    using channel_in_range [OF assms(3,4,5)] by simp
  have "fold (\<lambda>y'. fold (?W y') [0..<w]) [0..<h] ?z ! ?i =
          (if y \<in> set [0..<h] \<and> x \<in> set [0..<w]
           then [?A x y 0, ?A x y 1, ?A x y 2, d ! ((y * w + x) * 4 + 3)] ! c
           else ?z ! ?i)"
  proof (rule fold_pixels_nth [where w = w, OF _ _ i _ assms(3)])
    fix y' x' and out :: "byte list"
    assume "?i < length out"
    then show "?W y' x' out ! ?i =
        (if y' * w + x' = y * w + x
         then [?A x' y' 0, ?A x' y' 1, ?A x' y' 2, d ! ((y' * w + x') * 4 + 3)] ! c
         else out ! ?i)"
      by (subst four_write_nth [OF assms(5)]) auto
  qed simp_all
  moreover consider "c = 0" | "c = 1" | "c = 2" | "c = 3" using assms(5) by linarith
  then have "[?A x y 0, ?A x y 1, ?A x y 2, d ! ((y * w + x) * 4 + 3)] ! c =
      (if c < 3 then ?A x y c else d ! ?i)"
    by cases simp_all
  moreover have "length (fold (\<lambda>y'. fold (?W y') [0..<w]) [0..<h] ?z) = 4 * w * h"
    by (subst fold_pixels_length) simp_all
  ultimately show ?thesis
    using assms(3,4) all by simp
qed

lemma for_each_append:
  "for_each (xs @ ys) body s =
     (case for_each xs body s of Inl e \<Rightarrow> Inl e | Inr s' \<Rightarrow> for_each ys body s')"
  by (induction xs arbitrary: s) (simp_all split: sum.splits)

text \<open>
  With an even \<open>kernelSize \<ge> 0\<close> the offsets \<open>-radius..radius\<close> are one more than the rows
  of the kernel: the lookup of the last row throws, for the first pixel already.
\<close>

lemma gauss_sums_even_fails:
  assumes "even k" "0 \<le> k"
  shows "gauss_sums d w h (createGaussianKernel k sigma) (k div 2) x y = Inl TypeError"
proof -
  let ?K = "createGaussianKernel k sigma"
  let ?r = "k div 2"
  let ?row = "\<lambda>ky. for_each [- ?r..?r] (\<lambda>kx. gauss_step d w h ?K ?r x y ky kx)"
  have k: "k = 2 * ?r" "0 \<le> ?r" using assms by presburger+
  have split: "[- ?r..?r] = [- ?r..?r - 1] @ [?r]"
    using k(2) by (intro upto_rec2) simp
  have first: "[- ?r..?r] = - ?r # [- ?r + 1..?r]"
    using k(2) by (intro upto_rec1) simp
  obtain s where s: "for_each [- ?r..?r - 1] ?row (Fin 0, Fin 0, Fin 0, Fin 0) = Inr s"
  proof -
    have "\<exists>s. for_each [- ?r..?r - 1] ?row (Fin 0, Fin 0, Fin 0, Fin 0) = Inr s"
    proof (intro for_each_Inr gauss_step_ok)
      fix ky :: int assume "ky \<in> set [- ?r..?r - 1]"
      then have ky: "- ?r \<le> ky" "ky \<le> ?r - 1" by simp_all
      then show "0 \<le> ky + ?r" by simp
      have "ky + ?r < k" using ky k(1) by linarith
      then show "nat (ky + ?r) < length ?K" using ky(1) by simp
    qed
    then show ?thesis using that by blast
  qed
  have "\<not> nat (?r + ?r) < length ?K" using k by simp
  then have "kernel_at ?K (?r + ?r) (- ?r + ?r) = Inl TypeError"
    by (simp only: kernel_at_def) simp
  then have "gauss_step d w h ?K ?r x y ?r (- ?r) s = Inl TypeError"
    by (cases s) (simp add: gauss_step_def Let_def)
  then have "?row ?r s = Inl TypeError"
    by (subst first) simp
  then show ?thesis
    unfolding gauss_sums_def by (subst split) (simp add: for_each_append s)
qed

lemma IP_blur_even_fails:
  assumes "even k" "0 \<le> k" "0 < w" "0 < h"
  shows "IP_blur_pixels d w h k = Inl TypeError"
proof -
  have ws: "[0..<w] = 0 # [1..<w]" "[0..<h] = 0 # [1..<h]"
    using assms(3,4) by (simp_all add: upt_conv_Cons)
  show ?thesis
    by (simp add: IP_blur_pixels_def ws IP_blur_write_def gauss_sums_even_fails [OF assms(1,2)])
qed

section \<open>The Gaussian blur at a border\<close>

lemma upt_3: "[0..<3] = [0, 1, 2]"
  by (simp add: eval_nat_numeral)

lemma fl_small [simp]:
  "fl 1 = 1" "fl 2 = 2" "fl 255 = 255" "fl (- 1) = - 1" "fl (- (1 / 2)) = - (1 / 2)"
  using fl_int [of 1] fl_int [of 2] fl_int [of 255] fl_int [of "- 1"] by (simp_all add: fl_eval)

lemma kernel3_eq:
  "kernel3 =
     [[Fin (fl (exp (- 1))), Fin (fl (exp (- (1 / 2)))), Fin (fl (exp (- 1)))],
      [Fin (fl (exp (- (1 / 2)))), Fin 1, Fin (fl (exp (- (1 / 2))))],
      [Fin (fl (exp (- 1))), Fin (fl (exp (- (1 / 2)))), Fin (fl (exp (- 1)))]]"
  by (simp add: kernel3_def createGaussianKernel_def upt_3 Let_def)


lemma exp_weights:
  "6065 / 10000 \<le> exp (- (1 / 2) :: real)" "exp (- (1 / 2) :: real) \<le> 60655 / 100000"
  "36785 / 100000 \<le> exp (- 1 :: real)" "exp (- 1 :: real) \<le> 36794 / 100000"
proof -
  define eh :: real where "eh = exp (- (1 / 2))"
  define eo :: real where "eo = exp (- 1)"
  have sq: "(1 / 2 :: real)\<^sup>2 = 1 / 4" "(1 :: real)\<^sup>2 = 1"
    by (simp_all add: power2_eq_square)
  have "exp (1 / 2 :: real) \<le> 1 + 1 / 2 + (1 / 2)\<^sup>2"
    by (rule exp_bound) simp_all
  then have h: "exp (1 / 2 :: real) \<le> 7 / 4" unfolding sq by linarith
  have "exp (1 :: real) \<le> 1 + 1 + 1\<^sup>2"
    by (rule exp_bound) simp_all
  then have o: "exp (1 :: real) \<le> 3" unfolding sq by linarith
  obtain t :: real where t: "\<bar>t\<bar> \<le> \<bar>- (1 / 2)\<bar>"
    and et: "exp (- (1 / 2)) = (\<Sum>m<6. (- (1 / 2)) ^ m / fact m) + exp t / fact 6 * (- (1 / 2)) ^ 6"
    using Maclaurin_exp_le [of "- (1 / 2)" 6] by blast
  define u where "u = exp t"
  have "t \<le> 1 / 2" using t by simp
  then have "exp t \<le> exp (1 / 2)" by (simp only: exp_le_cancel_iff)
  then have u: "0 < u" "u \<le> 7 / 4"
    unfolding u_def using h exp_gt_zero [of t] by linarith+
  have "(\<Sum>m<6. (- (1 / 2) :: real) ^ m / fact m) = 2329 / 3840"
    by (simp add: eval_nat_numeral)
  moreover have "u / fact 6 * (- (1 / 2)) ^ 6 = u / 46080"
    by (simp add: eval_nat_numeral)
  ultimately have "eh = 2329 / 3840 + u / 46080"
    using et unfolding u_def [symmetric] eh_def by (simp only:)
  then have eh: "6065 / 10000 \<le> eh" "eh \<le> 60655 / 100000" using u by linarith+
  obtain s :: real where s: "\<bar>s\<bar> \<le> \<bar>- 1\<bar>"
    and es: "exp (- 1) = (\<Sum>m<8. (- 1) ^ m / fact m) + exp s / fact 8 * (- 1) ^ 8"
    using Maclaurin_exp_le [of "- 1" 8] by blast
  define v where "v = exp s"
  have "s \<le> 1" using s by simp
  then have "exp s \<le> exp 1" by (simp only: exp_le_cancel_iff)
  then have v: "0 < v" "v \<le> 3"
    unfolding v_def using o exp_gt_zero [of s] by linarith+
  have "(\<Sum>m<8. (- 1 :: real) ^ m / fact m) = 1854 / 5040"
    by (simp add: eval_nat_numeral)
  moreover have "v / fact 8 * (- 1) ^ 8 = v / 40320"
    by (simp add: eval_nat_numeral)
  ultimately have "eo = 1854 / 5040 + v / 40320"
    using es unfolding v_def [symmetric] eo_def by (simp only:)
  then have eo: "36785 / 100000 \<le> eo" "eo \<le> 36794 / 100000" using v by linarith+
  show "6065 / 10000 \<le> exp (- (1 / 2) :: real)" "exp (- (1 / 2) :: real) \<le> 60655 / 100000"
    "36785 / 100000 \<le> exp (- 1 :: real)" "exp (- 1 :: real) \<le> 36794 / 100000"
    using eh eo unfolding eh_def eo_def by blast+
qed

lemma fl_range:
  assumes "lo + 1 / 1000000000 \<le> x" "x \<le> hi - 1 / 1000000000" "- 1024 \<le> lo" "hi \<le> 1024"
  shows "lo \<le> fl x \<and> fl x \<le> hi"
  using fl_error_1024 [of x] assms by linarith

lemma fl_weights:
  "6064 / 10000 \<le> fl (exp (- (1 / 2)))" "fl (exp (- (1 / 2))) \<le> 6066 / 10000"
  "3678 / 10000 \<le> fl (exp (- 1))" "fl (exp (- 1)) \<le> 3680 / 10000"
proof -
  have "6064 / 10000 \<le> fl (exp (- (1 / 2))) \<and> fl (exp (- (1 / 2))) \<le> 6066 / 10000"
    by (rule fl_range) (use exp_weights in linarith)+
  then show "6064 / 10000 \<le> fl (exp (- (1 / 2)))" "fl (exp (- (1 / 2))) \<le> 6066 / 10000" by simp_all
  have "3678 / 10000 \<le> fl (exp (- 1)) \<and> fl (exp (- 1)) \<le> 3680 / 10000"
    by (rule fl_range) (use exp_weights in linarith)+
  then show "3678 / 10000 \<le> fl (exp (- 1))" "fl (exp (- 1)) \<le> 3680 / 10000" by simp_all
qed

text \<open>The sum of the nine weights, in the order of the two kernel loops.\<close>

lemma kernel3_weight_sum:
  "\<exists>W. weight_sum kernel3 = Fin W \<and> 48960 / 10000 \<le> W \<and> W \<le> 48992 / 10000"
proof -
  let ?a = "fl (exp (- 1))"
  let ?b = "fl (exp (- (1 / 2)))"
  let ?w1 = "fl (?a + ?b)"
  let ?w2 = "fl (?w1 + ?a)"
  let ?w3 = "fl (?w2 + ?b)"
  let ?w4 = "fl (?w3 + 1)"
  let ?w5 = "fl (?w4 + ?b)"
  let ?w6 = "fl (?w5 + ?a)"
  let ?w7 = "fl (?w6 + ?b)"
  let ?w8 = "fl (?w7 + ?a)"
  have e: "weight_sum kernel3 = Fin ?w8"
    by (simp add: weight_sum_def kernel3_eq)
  have w1: "9741 / 10000 \<le> ?w1 \<and> ?w1 \<le> 9747 / 10000"
    by (rule fl_range) (use fl_weights in linarith)+
  have w2: "13418 / 10000 \<le> ?w2 \<and> ?w2 \<le> 13428 / 10000"
    by (rule fl_range) (use fl_weights w1 in linarith)+
  have w3: "19481 / 10000 \<le> ?w3 \<and> ?w3 \<le> 19495 / 10000"
    by (rule fl_range) (use fl_weights w2 in linarith)+
  have w4: "29480 / 10000 \<le> ?w4 \<and> ?w4 \<le> 29496 / 10000"
    by (rule fl_range) (use w3 in linarith)+
  have w5: "35543 / 10000 \<le> ?w5 \<and> ?w5 \<le> 35563 / 10000"
    by (rule fl_range) (use fl_weights w4 in linarith)+
  have w6: "39220 / 10000 \<le> ?w6 \<and> ?w6 \<le> 39244 / 10000"
    by (rule fl_range) (use fl_weights w5 in linarith)+
  have w7: "45283 / 10000 \<le> ?w7 \<and> ?w7 \<le> 45311 / 10000"
    by (rule fl_range) (use fl_weights w6 in linarith)+
  have w8: "48960 / 10000 \<le> ?w8 \<and> ?w8 \<le> 48992 / 10000"
    by (rule fl_range) (use fl_weights w7 in linarith)+
  from e w8 show ?thesis by blast
qed

lemma white_weights:
  "937889 / 10000 \<le> fl (255 * fl (exp (- 1))) \<and> fl (255 * fl (exp (- 1))) \<le> 938401 / 10000"
  "1546319 / 10000 \<le> fl (255 * fl (exp (- (1 / 2)))) \<and> fl (255 * fl (exp (- (1 / 2)))) \<le> 1546831 / 10000"
  by (rule fl_range; use fl_weights in linarith)+

text \<open>
  The left pixel: both pixels of the row are under every row of the kernel, the black one
  under its left and middle column, the white one under its right column.
\<close>

lemma gauss_sums_left:
  "\<exists>s. gauss_sums two_px 2 1 kernel3 1 0 0 = Inr (s, s, s, weight_sum kernel3)
       \<and> ToUint8Clamp (jdiv s (weight_sum kernel3)) = 70"
proof -
  let ?a = "fl (exp (- 1))"
  let ?b = "fl (exp (- (1 / 2)))"
  let ?pa = "fl (255 * ?a)"
  let ?pb = "fl (255 * ?b)"
  let ?r1 = "fl (?pa + ?pb)"
  let ?r2 = "fl (?r1 + ?pa)"
  obtain W where e: "weight_sum kernel3 = Fin W" and W: "48960 / 10000 \<le> W \<and> W \<le> 48992 / 10000"
    using kernel3_weight_sum by blast
  have g: "gauss_sums two_px 2 1 kernel3 1 0 0 = Inr (Fin ?r2, Fin ?r2, Fin ?r2, weight_sum kernel3)"
    by (simp add: gauss_sums_def upto_m1_1 gauss_step_def kernel_at_def weight_sum_def kernel3_eq
        two_px_def num_of_byte_def Let_def)
  have pa: "937889 / 10000 \<le> ?pa \<and> ?pa \<le> 938401 / 10000" by (rule white_weights)
  have pb: "1546319 / 10000 \<le> ?pb \<and> ?pb \<le> 1546831 / 10000" by (rule white_weights)
  have r1: "2484207 / 10000 \<le> ?r1 \<and> ?r1 \<le> 2485233 / 10000"
    by (rule fl_range) (use pa pb in linarith)+
  have r2: "3422095 / 10000 \<le> ?r2 \<and> ?r2 \<le> 3423635 / 10000"
    by (rule fl_range) (use r1 pa in linarith)+
  have pos: "0 < W" using W by linarith
  have "698500 / 10000 * W \<le> ?r2" "?r2 \<le> 699272 / 10000 * W" using r2 W by linarith+
  then have q: "698500 / 10000 \<le> ?r2 / W" "?r2 / W \<le> 699272 / 10000"
    using pos by (simp_all add: pos_le_divide_eq pos_divide_le_eq)
  have v: "698499 / 10000 \<le> fl (?r2 / W) \<and> fl (?r2 / W) \<le> 699273 / 10000"
    by (rule fl_range) (use q in linarith)+
  have "\<bar>fl (?r2 / W) - real 70\<bar> < 1 / 2" using v by simp
  then have "ToUint8Clamp (Fin (fl (?r2 / W))) = (word_of_nat 70 :: byte)"
    by (intro ToUint8Clamp_near) simp_all
  moreover have "jdiv (Fin ?r2) (Fin W) = Fin (fl (?r2 / W))" using pos by simp
  ultimately have "ToUint8Clamp (jdiv (Fin ?r2) (weight_sum kernel3)) = 70"
    unfolding e by simp
  with g show ?thesis by blast
qed

text \<open>The right pixel: the white pixel is under the middle and the right column.\<close>

lemma gauss_sums_right:
  "\<exists>s. gauss_sums two_px 2 1 kernel3 1 1 0 = Inr (s, s, s, weight_sum kernel3)
       \<and> ToUint8Clamp (jdiv s (weight_sum kernel3)) = 185"
proof -
  let ?a = "fl (exp (- 1))"
  let ?b = "fl (exp (- (1 / 2)))"
  let ?pa = "fl (255 * ?a)"
  let ?pb = "fl (255 * ?b)"
  let ?s1 = "fl (?pb + ?pa)"
  let ?s2 = "fl (?s1 + 255)"
  let ?s3 = "fl (?s2 + ?pb)"
  let ?s4 = "fl (?s3 + ?pb)"
  let ?s5 = "fl (?s4 + ?pa)"
  obtain W where e: "weight_sum kernel3 = Fin W" and W: "48960 / 10000 \<le> W \<and> W \<le> 48992 / 10000"
    using kernel3_weight_sum by blast
  have g: "gauss_sums two_px 2 1 kernel3 1 1 0 = Inr (Fin ?s5, Fin ?s5, Fin ?s5, weight_sum kernel3)"
    by (simp add: gauss_sums_def upto_m1_1 gauss_step_def kernel_at_def weight_sum_def kernel3_eq
        two_px_def num_of_byte_def Let_def)
  have pa: "937889 / 10000 \<le> ?pa \<and> ?pa \<le> 938401 / 10000" by (rule white_weights)
  have pb: "1546319 / 10000 \<le> ?pb \<and> ?pb \<le> 1546831 / 10000" by (rule white_weights)
  have s1: "2484207 / 10000 \<le> ?s1 \<and> ?s1 \<le> 2485233 / 10000"
    by (rule fl_range) (use pb pa in linarith)+
  have s2: "5034206 / 10000 \<le> ?s2 \<and> ?s2 \<le> 5035234 / 10000"
    by (rule fl_range) (use s1 in linarith)+
  have s3: "6580524 / 10000 \<le> ?s3 \<and> ?s3 \<le> 6582066 / 10000"
    by (rule fl_range) (use s2 pb in linarith)+
  have s4: "8126842 / 10000 \<le> ?s4 \<and> ?s4 \<le> 8128898 / 10000"
    by (rule fl_range) (use s3 pb in linarith)+
  have s5: "9064730 / 10000 \<le> ?s5 \<and> ?s5 \<le> 9067300 / 10000"
    by (rule fl_range) (use s4 pa in linarith)+
  have pos: "0 < W" using W by linarith
  have "1850246 / 10000 * W \<le> ?s5" "?s5 \<le> 1851982 / 10000 * W" using s5 W by linarith+
  then have q: "1850246 / 10000 \<le> ?s5 / W" "?s5 / W \<le> 1851982 / 10000"
    using pos by (simp_all add: pos_le_divide_eq pos_divide_le_eq)
  have v: "1850245 / 10000 \<le> fl (?s5 / W) \<and> fl (?s5 / W) \<le> 1851983 / 10000"
    by (rule fl_range) (use q in linarith)+
  have "\<bar>fl (?s5 / W) - real 185\<bar> < 1 / 2" using v by simp
  then have "ToUint8Clamp (Fin (fl (?s5 / W))) = (word_of_nat 185 :: byte)"
    by (intro ToUint8Clamp_near) simp_all
  moreover have "jdiv (Fin ?s5) (Fin W) = Fin (fl (?s5 / W))" using pos by simp
  ultimately have "ToUint8Clamp (jdiv (Fin ?s5) (weight_sum kernel3)) = 185"
    unfolding e by simp
  with g show ?thesis by blast
qed

text \<open>
  Averaging over the samples inside the buffer only, at the left pixel: with the weights of
  the kernel the black pixel has weight 1 and the white one \<open>exp (- 1 / 2)\<close>.
\<close>

lemma weighted_two_px: "excluding_weighted_average two_px 2 1 kernel3 1 0 0 0 = 96"
proof -
  let ?b = "fl (exp (- (1 / 2)))"
  let ?pb = "fl (255 * ?b)"
  let ?d = "fl (1 + ?b)"
  let ?v = "fl (?pb / ?d)"
  have e: "excluding_weighted_average two_px 2 1 kernel3 1 0 0 0 =
      ToUint8Clamp (jdiv (Fin ?pb) (Fin ?d))"
    by (simp add: excluding_weighted_average_def upto_m1_1 weighted_step_def inside_def kernel3_eq
        two_px_def num_of_byte_def Let_def del: jdiv.simps ToUint8Clamp.simps)
  have pb: "1546319 / 10000 \<le> ?pb \<and> ?pb \<le> 1546831 / 10000" by (rule white_weights)
  have d: "16063 / 10000 \<le> ?d \<and> ?d \<le> 16067 / 10000"
    by (rule fl_range) (use fl_weights in linarith)+
  have pos: "0 < ?d" using d by linarith
  have "962419 / 10000 * ?d \<le> ?pb" "?pb \<le> 962978 / 10000 * ?d" using pb d by linarith+
  then have q: "962419 / 10000 \<le> ?pb / ?d" "?pb / ?d \<le> 962978 / 10000"
    using pos by (simp_all add: pos_le_divide_eq pos_divide_le_eq)
  have v: "962418 / 10000 \<le> ?v \<and> ?v \<le> 962979 / 10000"
    by (rule fl_range) (use q in linarith)+
  have "\<bar>?v - real 96\<bar> < 1 / 2" using v by simp
  then have "ToUint8Clamp (Fin ?v) = (word_of_nat 96 :: byte)"
    by (intro ToUint8Clamp_near) simp_all
  moreover have "jdiv (Fin ?pb) (Fin ?d) = Fin ?v" using pos by simp
  ultimately show ?thesis unfolding e by simp
qed

lemma box_sums_two_px: "box_sums two_px 2 1 1 0 0 = (255, 255, 255, 2)"
  by (simp add: box_sums_def upto_m1_1 box_step_def two_px_def Let_def)

lemma fl_half_255: "fl (255 / 2) = 255 / 2"
  by (simp add: fl_eval)

lemma excluding_average_two_px: "excluding_average two_px 2 1 1 0 0 0 = 128"
proof -
  have "window_sum two_px 2 1 1 0 0 0 = 255" "card (window 2 1 1 0 0) = 2"
    using box_sums_window [of two_px 2 1 1 0 0] unfolding box_sums_two_px by simp_all
  then show ?thesis
    by (simp add: excluding_average_def fl_half_255 roundHalfEven_def)
qed

lemma IP_blur_two_px:
  "IP_blur_pixels two_px 2 1 3 = Inr [70, 70, 70, 255, 185, 185, 185, 255]"
proof -
  obtain s0 where s0: "gauss_sums two_px 2 1 kernel3 1 0 0 = Inr (s0, s0, s0, weight_sum kernel3)"
      "ToUint8Clamp (jdiv s0 (weight_sum kernel3)) = 70"
    using gauss_sums_left by blast
  obtain s1 where s1: "gauss_sums two_px 2 1 kernel3 1 1 0 = Inr (s1, s1, s1, weight_sum kernel3)"
      "ToUint8Clamp (jdiv s1 (weight_sum kernel3)) = 185"
    using gauss_sums_right by blast
  have two: "[0..<2] = [0, 1]" "[0..<1] = [0]" by (simp_all add: eval_nat_numeral)
  have "IP_blur_pixels two_px 2 1 3 =
      for_each [0..<1] (\<lambda>y. for_each [0..<2] (\<lambda>x. IP_blur_write two_px 2 1 kernel3 1 y x))
        (replicate 8 0)"
    by (simp add: IP_blur_pixels_def kernel3_def Let_def)
  also have "\<dots> = Inr [70, 70, 70, 255, 185, 185, 185, 255]"
    using s0 s1
    by (simp add: two IP_blur_write_def two_px_def eval_nat_numeral Let_def
        del: jdiv.simps ToUint8Clamp.simps)
  finally show ?thesis .
qed

text \<open>
  Claim C3 as stated fails for \<^verbatim>\<open>ImageProcessor.applyGaussianBlur\<close>: on the buffer of one
  row with a black and a white pixel and \<open>kernelSize = 3\<close> (radius 1) it returns 70 in the
  colour channels of the left pixel and 185 in those of the right one. The two rows of the
  kernel that fall outside the buffer are clamped onto the only row, the column outside is
  clamped onto the border pixel, and the divisor is the sum of all nine weights. Averaging
  only the samples inside the buffer gives 128 with equal weights, and 96 at the left pixel
  with the weights of the same kernel.
\<close>

theorem gaussian_blur_clamps_border:
  "IP_blur_pixels two_px 2 1 3 = Inr [70, 70, 70, 255, 185, 185, 185, 255]
   \<and> excluding_weighted_average two_px 2 1 kernel3 1 0 0 0 = 96
   \<and> excluding_average two_px 2 1 1 0 0 0 = 128"
  using IP_blur_two_px weighted_two_px excluding_average_two_px by simp

end
